theory Spec2Isabelle
  imports Complex_Main "HOL-Library.Multiset" "HOL-Library.Sublist"
begin

section \<open>Python values, strings and exceptions\<close>

text \<open>
  The two programs, seller.py and market.py, synchronise the stock levels and prices of a
  watch inventory feed with two marketplaces. Their logic is modelled here function by
  function. An exception is a value of type \<open>error\<close>; a function that may raise returns
  \<open>error + 'a\<close>, where \<open>Inl\<close> carries the exception. \<open>HTTPError\<close> stands for whatever
  the transport raises (\<open>raise_for_status\<close>, connection errors, timeouts).
\<close>

datatype error = ValueError | TypeError | AttributeError | IndexError | HTTPError

text \<open>
  A cell of the spreadsheet, as \<open>watch.get(key)\<close> returns it: a string, an integer, or
  \<open>None\<close> for a missing column. Cells that pandas reads as floating point numbers are
  not modelled, and an integer cell, which comes from a number of the spreadsheet, is
  taken to be far below the 4300 digits from which on \<open>str\<close> refuses an integer. A Python string is the list of the bytes of its UTF-8 encoding: the two
  string operations of the programs, splitting at \<open>.\<close> and deleting everything that is
  not an ASCII digit, treat a character outside ASCII like its bytes, none of which is
  an ASCII character.
\<close>

datatype pyval = PNone | PInt int | PStr string

text \<open>\<open>str(x)\<close>: decimal notation for an integer, \<open>None\<close> for \<open>None\<close>.\<close>

definition is_digit :: "char \<Rightarrow> bool" where
  "is_digit c = (c \<in> set ''0123456789'')"

definition digit_val :: "char \<Rightarrow> nat" where
  "digit_val c = of_char c - 48"

definition digit_char :: "nat \<Rightarrow> char" where
  "digit_char d = ''0123456789'' ! d"

function str_of_nat :: "nat \<Rightarrow> string" where
  "str_of_nat n = (if n < 10 then [digit_char n] else str_of_nat (n div 10) @ [digit_char (n mod 10)])"
  by pat_completeness auto
termination
  by (relation "measure id") auto

definition str_of_int :: "int \<Rightarrow> string" where
  "str_of_int i = (if i < 0 then CHR ''-'' # str_of_nat (nat (- i)) else str_of_nat (nat i))"

fun py_str :: "pyval \<Rightarrow> string" where
  "py_str PNone = ''None''"
| "py_str (PInt i) = str_of_int i"
| "py_str (PStr s) = s"

text \<open>
  \<open>int(x)\<close>. An integer is returned as it is and \<open>None\<close> raises \<open>TypeError\<close>. For a
  string the interpreter works in two steps. A string with a character outside ASCII is
  first brought into ASCII: a character below 127 stays, a Unicode space becomes a blank,
  a Unicode decimal digit becomes its ASCII digit, and at the first other character the
  text is cut and closed with \<open>?\<close>. The ASCII text is then stripped of the surrounding
  whitespace of C (blank, tab, line feed, vertical tab, form feed, carriage return) and
  read as an optional sign followed by decimal digits, where single underscores may
  separate digits; anything else raises \<open>ValueError\<close>, and so does a text of more than
  4300 digits, the limit an interpreter has unless it is configured otherwise. The
  tables are those of Unicode 14.0: the spaces above ASCII, and the code point of the
  digit zero of every script, whose ten digits follow one another.
\<close>

definition is_space :: "char \<Rightarrow> bool" where
  "is_space c = (c \<in> set [CHR 0x09, CHR 0x0A, CHR 0x0B, CHR 0x0C, CHR 0x0D, CHR 0x20])"

definition is_ascii :: "string \<Rightarrow> bool" where
  "is_ascii s = (\<forall>c \<in> set s. (of_char c :: nat) < 128)"

definition continuation :: "char \<Rightarrow> nat" where
  "continuation c = (of_char c :: nat) mod 64"

function utf8_decode :: "string \<Rightarrow> nat list" where
  "utf8_decode [] = []"
| "utf8_decode (b # bs) =
     (let n = (of_char b :: nat) in
      if n < 0x80 then n # utf8_decode bs
      else if 0xC0 \<le> n \<and> n < 0xE0 \<and> 1 \<le> length bs then
        ((n - 0xC0) * 64 + continuation (bs ! 0)) # utf8_decode (drop 1 bs)
      else if 0xE0 \<le> n \<and> n < 0xF0 \<and> 2 \<le> length bs then
        ((n - 0xE0) * 4096 + continuation (bs ! 0) * 64 + continuation (bs ! 1))
          # utf8_decode (drop 2 bs)
      else if 0xF0 \<le> n \<and> n < 0xF8 \<and> 3 \<le> length bs then
        ((n - 0xF0) * 262144 + continuation (bs ! 0) * 4096 + continuation (bs ! 1) * 64
           + continuation (bs ! 2)) # utf8_decode (drop 3 bs)
      else 0xFFFD # utf8_decode bs)"
  by pat_completeness auto
termination
  by (relation "measure length") auto

definition unicode_spaces :: "nat list" where
  "unicode_spaces =
    [0x85, 0xA0, 0x1680, 0x2000, 0x2001, 0x2002, 0x2003, 0x2004,
     0x2005, 0x2006, 0x2007, 0x2008, 0x2009, 0x200A, 0x2028, 0x2029,
     0x202F, 0x205F, 0x3000]"

definition digit_zeros :: "nat list" where
  "digit_zeros =
    [0x660, 0x6F0, 0x7C0, 0x966, 0x9E6, 0xA66, 0xAE6, 0xB66,
     0xBE6, 0xC66, 0xCE6, 0xD66, 0xDE6, 0xE50, 0xED0, 0xF20,
     0x1040, 0x1090, 0x17E0, 0x1810, 0x1946, 0x19D0, 0x1A80, 0x1A90,
     0x1B50, 0x1BB0, 0x1C40, 0x1C50, 0xA620, 0xA8D0, 0xA900, 0xA9D0,
     0xA9F0, 0xAA50, 0xABF0, 0xFF10, 0x104A0, 0x10D30, 0x11066, 0x110F0,
     0x11136, 0x111D0, 0x112F0, 0x11450, 0x114D0, 0x11650, 0x116C0, 0x11730,
     0x118E0, 0x11950, 0x11C50, 0x11D50, 0x11DA0, 0x16A60, 0x16AC0, 0x16B50,
     0x1D7CE, 0x1D7D8, 0x1D7E2, 0x1D7EC, 0x1D7F6, 0x1E140, 0x1E2F0, 0x1E950,
     0x1FBF0]"

definition to_decimal :: "nat \<Rightarrow> nat option" where
  "to_decimal ch =
     (case filter (\<lambda>z. z \<le> ch \<and> ch < z + 10) digit_zeros of
        [] \<Rightarrow> None
      | z # _ \<Rightarrow> Some (ch - z))"

fun transform :: "nat list \<Rightarrow> string" where
  "transform [] = []"
| "transform (ch # rest) =
     (if ch < 127 then char_of ch # transform rest
      else if ch \<in> set unicode_spaces then CHR '' '' # transform rest
      else (case to_decimal ch of
              None \<Rightarrow> ''?''
            | Some d \<Rightarrow> digit_char d # transform rest))"

definition ascii_form :: "string \<Rightarrow> string" where
  "ascii_form s = (if is_ascii s then s else transform (utf8_decode s))"

definition strip :: "string \<Rightarrow> string" where
  "strip s = rev (dropWhile is_space (rev (dropWhile is_space s)))"

fun int_digits :: "string \<Rightarrow> nat \<Rightarrow> nat option" where
  "int_digits [] acc = Some acc"
| "int_digits (c # cs) acc =
     (if is_digit c then int_digits cs (10 * acc + digit_val c)
      else if c = CHR ''_'' then
        (case cs of
           [] \<Rightarrow> None
         | d # ds \<Rightarrow> if is_digit d then int_digits ds (10 * acc + digit_val d) else None)
      else None)"

definition max_str_digits :: nat where
  "max_str_digits = 4300"

definition int_unsigned :: "string \<Rightarrow> nat option" where
  "int_unsigned s =
     (case s of
        [] \<Rightarrow> None
      | c # cs \<Rightarrow>
          if is_digit c \<and> length (filter is_digit s) \<le> max_str_digits
          then int_digits cs (digit_val c) else None)"

definition int_of_ascii :: "string \<Rightarrow> error + int" where
  "int_of_ascii s =
     (case strip s of
        [] \<Rightarrow> Inl ValueError
      | c # cs \<Rightarrow>
          if c = CHR ''-'' then
            (case int_unsigned cs of None \<Rightarrow> Inl ValueError | Some n \<Rightarrow> Inr (- int n))
          else if c = CHR ''+'' then
            (case int_unsigned cs of None \<Rightarrow> Inl ValueError | Some n \<Rightarrow> Inr (int n))
          else
            (case int_unsigned (c # cs) of None \<Rightarrow> Inl ValueError | Some n \<Rightarrow> Inr (int n)))"

definition int_of_str :: "string \<Rightarrow> error + int" where
  "int_of_str s = int_of_ascii (ascii_form s)"

fun py_int :: "pyval \<Rightarrow> error + int" where
  "py_int PNone = Inl TypeError"
| "py_int (PInt i) = Inr i"
| "py_int (PStr s) = int_of_str s"

text \<open>
  seller.py, \<open>price_conversion\<close>:
  \<^verbatim>\<open>return re.sub("[^0-9]", "", price.split(".")[0])\<close>
  \<open>split_on\<close> is \<open>str.split\<close> with a one-character separator; a value that is not a
  string has no \<open>split\<close> and raises \<open>AttributeError\<close>.
\<close>

fun split_on :: "char \<Rightarrow> string \<Rightarrow> string list" where
  "split_on sep [] = [[]]"
| "split_on sep (c # cs) =
     (if c = sep then [] # split_on sep cs
      else (case split_on sep cs of [] \<Rightarrow> [[c]] | p # ps \<Rightarrow> (c # p) # ps))"

definition price_conversion :: "pyval \<Rightarrow> error + string" where
  "price_conversion price =
     (case price of
        PStr s \<Rightarrow>
          (case split_on CHR ''.'' s of
             [] \<Rightarrow> Inl IndexError
           | p # _ \<Rightarrow> Inr (filter is_digit p))
      | _ \<Rightarrow> Inl AttributeError)"


section \<open>The feed and the update records\<close>

text \<open>
  A feed row is a dictionary of which the programs read three columns, with Cyrillic
  names: the item code (\<open>kod\<close>), the quantity (\<open>kolichestvo\<close>) and the price (\<open>tsena\<close>).
  A catalog is the list of offer ids (strings) that \<open>get_offer_ids\<close> returns. The
  update records are the dictionaries the two \<open>create_stocks\<close> and \<open>create_prices\<close>
  build; a field name used by dictionaries of both files is prefixed in one of them.
\<close>

record watch =
  kod :: pyval
  kolichestvo :: pyval
  tsena :: pyval

record seller_stock =
  offer_id :: string
  stock :: int

record seller_price =
  auto_action_enabled :: string
  currency_code :: string
  price_offer_id :: string
  old_price :: string
  price :: string

record market_item =
  item_count :: int
  item_type :: string
  updatedAt :: string

record market_stock =
  sku :: string
  warehouseId :: string
  items :: "market_item list"

record market_price_value =
  price_value :: int
  currencyId :: string

record market_price =
  price_id :: string
  market_price :: market_price_value

section \<open>Reconciliation: \<open>create_stocks\<close> and \<open>create_prices\<close>\<close>

text \<open>
  seller.py and market.py, \<open>create_stocks\<close>, the quantity of a matched row:
  \<^verbatim>\<open>
  count = str(watch.get(K))
  if count == ">10": stock = 100
  elif count == "1": stock = 0
  else: stock = int(watch.get(K))
  \<close>
\<close>

definition normalize_count :: "watch \<Rightarrow> error + int" where
  "normalize_count w =
     (let count = py_str (kolichestvo w) in
      if count = ''>10'' then Inr 100
      else if count = ''1'' then Inr 0
      else py_int (kolichestvo w))"

text \<open>
  seller.py, \<open>create_stocks\<close>. The first loop runs over the feed with the list \<open>stocks\<close>
  built so far and the caller's list \<open>offer_ids\<close>, from which \<open>offer_ids.remove\<close> deletes
  the first occurrence of a matched code. The second loop appends a zero record for
  every offer id left. The function returns \<open>stocks\<close>; the model returns with it the list
  \<open>offer_ids\<close> as the call leaves it, since the caller goes on using that list.
\<close>

fun seller_match_stocks ::
  "watch list \<Rightarrow> seller_stock list \<Rightarrow> string list \<Rightarrow> error + (seller_stock list \<times> string list)" where
  "seller_match_stocks [] stocks offer_ids = Inr (stocks, offer_ids)"
| "seller_match_stocks (w # ws) stocks offer_ids =
     (if py_str (kod w) \<in> set offer_ids then
        (case normalize_count w of
           Inl e \<Rightarrow> Inl e
         | Inr st \<Rightarrow>
             seller_match_stocks ws
               (stocks @ [\<lparr>offer_id = py_str (kod w), stock = st\<rparr>])
               (remove1 (py_str (kod w)) offer_ids))
      else seller_match_stocks ws stocks offer_ids)"

definition seller_create_stocks ::
  "watch list \<Rightarrow> string list \<Rightarrow> error + (seller_stock list \<times> string list)" where
  "seller_create_stocks watch_remnants offer_ids =
     (case seller_match_stocks watch_remnants [] offer_ids of
        Inl e \<Rightarrow> Inl e
      | Inr (stocks, rest) \<Rightarrow>
          Inr (stocks @ map (\<lambda>i. \<lparr>offer_id = i, stock = 0\<rparr>) rest, rest))"

text \<open>
  seller.py, \<open>create_prices\<close>: one price record for every feed row whose code is in
  \<open>offer_ids\<close>; the list is only read.
\<close>

fun seller_prices_loop ::
  "watch list \<Rightarrow> seller_price list \<Rightarrow> string list \<Rightarrow> error + seller_price list" where
  "seller_prices_loop [] prices offer_ids = Inr prices"
| "seller_prices_loop (w # ws) prices offer_ids =
     (if py_str (kod w) \<in> set offer_ids then
        (case price_conversion (tsena w) of
           Inl e \<Rightarrow> Inl e
         | Inr p \<Rightarrow>
             seller_prices_loop ws
               (prices @ [\<lparr>auto_action_enabled = ''UNKNOWN'', currency_code = ''RUB'',
                            price_offer_id = py_str (kod w), old_price = ''0'', price = p\<rparr>])
               offer_ids)
      else seller_prices_loop ws prices offer_ids)"

definition seller_create_prices :: "watch list \<Rightarrow> string list \<Rightarrow> error + seller_price list" where
  "seller_create_prices watch_remnants offer_ids = seller_prices_loop watch_remnants [] offer_ids"

text \<open>
  market.py, \<open>create_stocks\<close>: the same two loops; every record carries the warehouse
  and the time of the call, \<open>date\<close>, which the function reads from the clock
  (\<open>datetime.utcnow\<close>, cut to the second) and which is a parameter here.
\<close>

definition market_stock_entry :: "string \<Rightarrow> string \<Rightarrow> string \<Rightarrow> int \<Rightarrow> market_stock" where
  "market_stock_entry date warehouse_id code st =
     \<lparr>sku = code, warehouseId = warehouse_id,
      items = [\<lparr>item_count = st, item_type = ''FIT'', updatedAt = date\<rparr>]\<rparr>"

fun market_match_stocks ::
  "string \<Rightarrow> string \<Rightarrow> watch list \<Rightarrow> market_stock list \<Rightarrow> string list
     \<Rightarrow> error + (market_stock list \<times> string list)" where
  "market_match_stocks date warehouse_id [] stocks offer_ids = Inr (stocks, offer_ids)"
| "market_match_stocks date warehouse_id (w # ws) stocks offer_ids =
     (if py_str (kod w) \<in> set offer_ids then
        (case normalize_count w of
           Inl e \<Rightarrow> Inl e
         | Inr st \<Rightarrow>
             market_match_stocks date warehouse_id ws
               (stocks @ [market_stock_entry date warehouse_id (py_str (kod w)) st])
               (remove1 (py_str (kod w)) offer_ids))
      else market_match_stocks date warehouse_id ws stocks offer_ids)"

definition market_create_stocks ::
  "string \<Rightarrow> watch list \<Rightarrow> string list \<Rightarrow> string \<Rightarrow> error + (market_stock list \<times> string list)" where
  "market_create_stocks date watch_remnants offer_ids warehouse_id =
     (case market_match_stocks date warehouse_id watch_remnants [] offer_ids of
        Inl e \<Rightarrow> Inl e
      | Inr (stocks, rest) \<Rightarrow>
          Inr (stocks @ map (\<lambda>i. market_stock_entry date warehouse_id i 0) rest, rest))"

text \<open>
  market.py, \<open>create_prices\<close>: as in seller.py, but the price is converted with \<open>int\<close>.
\<close>

fun market_prices_loop ::
  "watch list \<Rightarrow> market_price list \<Rightarrow> string list \<Rightarrow> error + market_price list" where
  "market_prices_loop [] prices offer_ids = Inr prices"
| "market_prices_loop (w # ws) prices offer_ids =
     (if py_str (kod w) \<in> set offer_ids then
        (case price_conversion (tsena w) of
           Inl e \<Rightarrow> Inl e
         | Inr p \<Rightarrow>
             (case int_of_str p of
                Inl e \<Rightarrow> Inl e
              | Inr v \<Rightarrow>
                  market_prices_loop ws
                    (prices @ [\<lparr>price_id = py_str (kod w),
                                 market_price = \<lparr>price_value = v, currencyId = ''RUR''\<rparr>\<rparr>])
                    offer_ids))
      else market_prices_loop ws prices offer_ids)"

definition market_create_prices :: "watch list \<Rightarrow> string list \<Rightarrow> error + market_price list" where
  "market_create_prices watch_remnants offer_ids = market_prices_loop watch_remnants [] offer_ids"


section \<open>Batch splitting: \<open>divide\<close>\<close>

text \<open>
  seller.py:
  \<^verbatim>\<open>
  def divide(lst: list, n: int):
      for i in range(0, len(lst), n):
          yield lst[i: i + n]
  \<close>
  \<open>divide_lst lst n\<close> is \<open>list(divide(lst, n))\<close>, the form in which every caller uses
  the generator. \<open>range\<close> raises \<open>ValueError\<close> for a zero step, counts upwards for a
  positive and downwards for a negative one; a slice clamps its bounds to the list and
  counts a negative bound from the end.
\<close>

function range_up :: "int \<Rightarrow> int \<Rightarrow> int \<Rightarrow> int list" where
  "range_up i stop step = (if 0 < step \<and> i < stop then i # range_up (i + step) stop step else [])"
  by pat_completeness auto
termination
  by (relation "measure (\<lambda>(i, stop, step). nat (stop - i))") auto

function range_down :: "int \<Rightarrow> int \<Rightarrow> int \<Rightarrow> int list" where
  "range_down i stop step = (if step < 0 \<and> stop < i then i # range_down (i + step) stop step else [])"
  by pat_completeness auto
termination
  by (relation "measure (\<lambda>(i, stop, step). nat (i - stop))") auto

definition py_range :: "int \<Rightarrow> int \<Rightarrow> int \<Rightarrow> error + int list" where
  "py_range start stop step =
     (if step = 0 then Inl ValueError
      else if 0 < step then Inr (range_up start stop step)
      else Inr (range_down start stop step))"

definition slice_index :: "int \<Rightarrow> nat \<Rightarrow> nat" where
  "slice_index i len = (if i < 0 then nat (int len + i) else min (nat i) len)"

definition py_slice :: "'a list \<Rightarrow> int \<Rightarrow> int \<Rightarrow> 'a list" where
  "py_slice xs a b =
     (let lo = slice_index a (length xs); hi = slice_index b (length xs)
      in take (hi - lo) (drop lo xs))"

definition divide_lst :: "'a list \<Rightarrow> int \<Rightarrow> error + 'a list list" where
  "divide_lst lst n =
     (case py_range 0 (int (length lst)) n of
        Inl e \<Rightarrow> Inl e
      | Inr idx \<Rightarrow> Inr (map (\<lambda>i. py_slice lst i (i + n)) idx))"

section \<open>Catalog fetching: \<open>get_offer_ids\<close>\<close>

text \<open>
  The marketplace is a state machine: \<open>get_product_list\<close> takes the continuation token and
  the state of the server and returns a page, or an exception, and the next state. Both
  loops are \<open>while True\<close> loops that a server can keep running for ever, so the model
  counts the requests: with \<open>fuel\<close> requests allowed the result is \<open>None\<close> when the
  loop has not returned by then.

  seller.py:
  \<^verbatim>\<open>
  last_id = ""; product_list = []
  while True:
      some_prod = get_product_list(last_id, client_id, seller_token)
      product_list.extend(some_prod.get("items"))
      total = some_prod.get("total")
      last_id = some_prod.get("last_id")
      if total == len(product_list): break
  \<close>
  market.py:
  \<^verbatim>\<open>
  page = ""; product_list = []
  while True:
      some_prod = get_product_list(page, campaign_id, market_token)
      product_list.extend(some_prod.get("offerMappingEntries"))
      page = some_prod.get("paging").get("nextPageToken")
      if not page: break
  \<close>
\<close>

record product =
  product_id :: int
  item_offer_id :: string

record seller_page =
  result_items :: "product list"
  result_total :: int
  result_last_id :: string

record market_entry =
  shopSku :: string

record market_page =
  offerMappingEntries :: "market_entry list"
  nextPageToken :: "string option"

fun seller_fetch_loop ::
  "nat \<Rightarrow> (string \<Rightarrow> 's \<Rightarrow> (error + seller_page) \<times> 's) \<Rightarrow> 's \<Rightarrow> string \<Rightarrow> product list
     \<Rightarrow> (error + product list) option" where
  "seller_fetch_loop 0 get_product_list s last_id product_list = None"
| "seller_fetch_loop (Suc fuel) get_product_list s last_id product_list =
     (case get_product_list last_id s of
        (Inl e, s') \<Rightarrow> Some (Inl e)
      | (Inr some_prod, s') \<Rightarrow>
          (let product_list' = product_list @ result_items some_prod in
           if result_total some_prod = int (length product_list') then Some (Inr product_list')
           else seller_fetch_loop fuel get_product_list s' (result_last_id some_prod) product_list'))"

definition seller_get_offer_ids ::
  "nat \<Rightarrow> (string \<Rightarrow> 's \<Rightarrow> (error + seller_page) \<times> 's) \<Rightarrow> 's \<Rightarrow> (error + string list) option" where
  "seller_get_offer_ids fuel get_product_list s =
     (case seller_fetch_loop fuel get_product_list s [] [] of
        None \<Rightarrow> None
      | Some (Inl e) \<Rightarrow> Some (Inl e)
      | Some (Inr product_list) \<Rightarrow> Some (Inr (map item_offer_id product_list)))"

definition falsy :: "string option \<Rightarrow> bool" where
  "falsy page = (case page of None \<Rightarrow> True | Some t \<Rightarrow> t = [])"

fun market_fetch_loop ::
  "nat \<Rightarrow> (string option \<Rightarrow> 's \<Rightarrow> (error + market_page) \<times> 's) \<Rightarrow> 's \<Rightarrow> string option
     \<Rightarrow> market_entry list \<Rightarrow> (error + market_entry list) option" where
  "market_fetch_loop 0 get_product_list s page product_list = None"
| "market_fetch_loop (Suc fuel) get_product_list s page product_list =
     (case get_product_list page s of
        (Inl e, s') \<Rightarrow> Some (Inl e)
      | (Inr some_prod, s') \<Rightarrow>
          (let product_list' = product_list @ offerMappingEntries some_prod;
               page' = nextPageToken some_prod in
           if falsy page' then Some (Inr product_list')
           else market_fetch_loop fuel get_product_list s' page' product_list'))"

definition market_get_offer_ids ::
  "nat \<Rightarrow> (string option \<Rightarrow> 's \<Rightarrow> (error + market_page) \<times> 's) \<Rightarrow> 's \<Rightarrow> (error + string list) option" where
  "market_get_offer_ids fuel get_product_list s =
     (case market_fetch_loop fuel get_product_list s (Some []) [] of
        None \<Rightarrow> None
      | Some (Inl e) \<Rightarrow> Some (Inl e)
      | Some (Inr product_list) \<Rightarrow> Some (Inr (map shopSku product_list)))"

section \<open>Pushing the updates\<close>

text \<open>
  A push loop sends the chunks one after the other and stops at the first request that
  raises. The endpoint is a function telling for a chunk whether the request raises; the
  loop returns the requests it has sent, in order, and the exception that ended it, if
  any. \<open>main\<close> of either file catches every exception and prints it, so its result is
  the requests sent and the exception caught. The results of \<open>get_offer_ids\<close> and
  \<open>download_stock\<close> are parameters. In \<open>main\<close> of market.py the coroutine function
  \<open>upload_prices\<close> is called without being awaited, so its body does not run and no
  price request is sent there.
\<close>

datatype ('s, 'p) call = UpdateStocks "'s list" | UpdatePrice "'p list"

fun push :: "('u list \<Rightarrow> error option) \<Rightarrow> ('u list \<Rightarrow> 'c) \<Rightarrow> 'u list list \<Rightarrow> 'c list \<times> error option" where
  "push update tag [] = ([], None)"
| "push update tag (some # others) =
     (case update some of
        Some e \<Rightarrow> ([tag some], Some e)
      | None \<Rightarrow> (case push update tag others of (sent, r) \<Rightarrow> (tag some # sent, r)))"

definition push_chunks ::
  "('u list \<Rightarrow> error option) \<Rightarrow> ('u list \<Rightarrow> 'c) \<Rightarrow> 'u list \<Rightarrow> int \<Rightarrow> 'c list \<times> error option" where
  "push_chunks update tag updates n =
     (case divide_lst updates n of
        Inl e \<Rightarrow> ([], Some e)
      | Inr chunks \<Rightarrow> push update tag chunks)"

definition seller_main ::
  "(error + string list) \<Rightarrow> (error + watch list)
     \<Rightarrow> (seller_stock list \<Rightarrow> error option) \<Rightarrow> (seller_price list \<Rightarrow> error option)
     \<Rightarrow> (seller_stock, seller_price) call list \<times> error option" where
  "seller_main get_offer_ids download_stock update_stocks update_price =
     (case get_offer_ids of
        Inl e \<Rightarrow> ([], Some e)
      | Inr offer_ids \<Rightarrow>
     (case download_stock of
        Inl e \<Rightarrow> ([], Some e)
      | Inr watch_remnants \<Rightarrow>
     (case seller_create_stocks watch_remnants offer_ids of
        Inl e \<Rightarrow> ([], Some e)
      | Inr (stocks, offer_ids') \<Rightarrow>
     (case push_chunks update_stocks UpdateStocks stocks 100 of
        (sent, Some e) \<Rightarrow> (sent, Some e)
      | (sent, None) \<Rightarrow>
     (case seller_create_prices watch_remnants offer_ids' of
        Inl e \<Rightarrow> (sent, Some e)
      | Inr prices \<Rightarrow>
     (case push_chunks update_price UpdatePrice prices 900 of
        (sent', r) \<Rightarrow> (sent @ sent', r)))))))"

definition seller_upload_prices ::
  "watch list \<Rightarrow> (error + string list) \<Rightarrow> (seller_price list \<Rightarrow> error option)
     \<Rightarrow> (seller_stock, seller_price) call list \<times> (error + seller_price list)" where
  "seller_upload_prices watch_remnants get_offer_ids update_price =
     (case get_offer_ids of
        Inl e \<Rightarrow> ([], Inl e)
      | Inr offer_ids \<Rightarrow>
     (case seller_create_prices watch_remnants offer_ids of
        Inl e \<Rightarrow> ([], Inl e)
      | Inr prices \<Rightarrow>
     (case push_chunks update_price UpdatePrice prices 1000 of
        (sent, Some e) \<Rightarrow> (sent, Inl e)
      | (sent, None) \<Rightarrow> (sent, Inr prices))))"

definition seller_upload_stocks ::
  "watch list \<Rightarrow> (error + string list) \<Rightarrow> (seller_stock list \<Rightarrow> error option)
     \<Rightarrow> (seller_stock, seller_price) call list \<times> (error + seller_stock list \<times> seller_stock list)" where
  "seller_upload_stocks watch_remnants get_offer_ids update_stocks =
     (case get_offer_ids of
        Inl e \<Rightarrow> ([], Inl e)
      | Inr offer_ids \<Rightarrow>
     (case seller_create_stocks watch_remnants offer_ids of
        Inl e \<Rightarrow> ([], Inl e)
      | Inr (stocks, offer_ids') \<Rightarrow>
     (case push_chunks update_stocks UpdateStocks stocks 100 of
        (sent, Some e) \<Rightarrow> (sent, Inl e)
      | (sent, None) \<Rightarrow> (sent, Inr (filter (\<lambda>s. stock s \<noteq> 0) stocks, stocks)))))"

definition market_upload_prices ::
  "watch list \<Rightarrow> (error + string list) \<Rightarrow> (market_price list \<Rightarrow> error option)
     \<Rightarrow> (market_stock, market_price) call list \<times> (error + market_price list)" where
  "market_upload_prices watch_remnants get_offer_ids update_price =
     (case get_offer_ids of
        Inl e \<Rightarrow> ([], Inl e)
      | Inr offer_ids \<Rightarrow>
     (case market_create_prices watch_remnants offer_ids of
        Inl e \<Rightarrow> ([], Inl e)
      | Inr prices \<Rightarrow>
     (case push_chunks update_price UpdatePrice prices 500 of
        (sent, Some e) \<Rightarrow> (sent, Inl e)
      | (sent, None) \<Rightarrow> (sent, Inr prices))))"

fun first_item :: "market_item list \<Rightarrow> error + market_item" where
  "first_item [] = Inl IndexError"
| "first_item (i # _) = Inr i"

fun not_empty_filter :: "market_stock list \<Rightarrow> error + market_stock list" where
  "not_empty_filter [] = Inr []"
| "not_empty_filter (s # ss) =
     (case first_item (items s) of
        Inl e \<Rightarrow> Inl e
      | Inr i \<Rightarrow>
          (case not_empty_filter ss of
             Inl e \<Rightarrow> Inl e
           | Inr r \<Rightarrow> Inr (if item_count i \<noteq> 0 then s # r else r)))"

definition market_upload_stocks ::
  "string \<Rightarrow> watch list \<Rightarrow> (error + string list) \<Rightarrow> (market_stock list \<Rightarrow> error option) \<Rightarrow> string
     \<Rightarrow> (market_stock, market_price) call list \<times> (error + market_stock list \<times> market_stock list)" where
  "market_upload_stocks date watch_remnants get_offer_ids update_stocks warehouse_id =
     (case get_offer_ids of
        Inl e \<Rightarrow> ([], Inl e)
      | Inr offer_ids \<Rightarrow>
     (case market_create_stocks date watch_remnants offer_ids warehouse_id of
        Inl e \<Rightarrow> ([], Inl e)
      | Inr (stocks, offer_ids') \<Rightarrow>
     (case push_chunks update_stocks UpdateStocks stocks 2000 of
        (sent, Some e) \<Rightarrow> (sent, Inl e)
      | (sent, None) \<Rightarrow>
          (case not_empty_filter stocks of
             Inl e \<Rightarrow> (sent, Inl e)
           | Inr not_empty \<Rightarrow> (sent, Inr (not_empty, stocks))))))"

definition market_target ::
  "string \<Rightarrow> watch list \<Rightarrow> (error + string list) \<Rightarrow> (market_stock list \<Rightarrow> error option) \<Rightarrow> string
     \<Rightarrow> (market_stock, market_price) call list \<times> error option" where
  "market_target date watch_remnants get_offer_ids update_stocks warehouse_id =
     (case get_offer_ids of
        Inl e \<Rightarrow> ([], Some e)
      | Inr offer_ids \<Rightarrow>
     (case market_create_stocks date watch_remnants offer_ids warehouse_id of
        Inl e \<Rightarrow> ([], Some e)
      | Inr (stocks, offer_ids') \<Rightarrow> push_chunks update_stocks UpdateStocks stocks 2000))"

definition market_main ::
  "watch list \<Rightarrow> string \<Rightarrow> (error + string list) \<Rightarrow> (market_stock list \<Rightarrow> error option) \<Rightarrow> string
     \<Rightarrow> string \<Rightarrow> (error + string list) \<Rightarrow> (market_stock list \<Rightarrow> error option) \<Rightarrow> string
     \<Rightarrow> (market_stock, market_price) call list \<times> error option" where
  "market_main watch_remnants date_fbs offer_ids_fbs update_stocks_fbs warehouse_fbs_id
       date_dbs offer_ids_dbs update_stocks_dbs warehouse_dbs_id =
     (case market_target date_fbs watch_remnants offer_ids_fbs update_stocks_fbs warehouse_fbs_id of
        (sent, Some e) \<Rightarrow> (sent, Some e)
      | (sent, None) \<Rightarrow>
          (case market_target date_dbs watch_remnants offer_ids_dbs update_stocks_dbs warehouse_dbs_id of
             (sent', r) \<Rightarrow> (sent @ sent', r)))"


section \<open>Auxiliary notions used in the statements\<close>

text \<open>
  The definitions below are not functions of the programs. They name what the statements
  talk about: the chunks of \<open>divide\<close> from a position on, the codes of a feed, the
  value of a digit string, the stock record of market.py that corresponds to one of
  seller.py, the bound on a request, the replacement of the timestamps of a stock
  record, the feed rows that are matched, the records expected of a row, the strings
  that are decimal literals, and the examples: the feed and
  catalog of the end-to-end scenario of the specification, a feed that repeats a code,
  and two servers.
\<close>

definition chunks_at :: "'a list \<Rightarrow> int \<Rightarrow> nat \<Rightarrow> 'a list list" where
  "chunks_at xs n k = map (\<lambda>i. py_slice xs i (i + n)) (range_up (int k) (int (length xs)) n)"

definition codes :: "watch list \<Rightarrow> string list" where
  "codes feed = map (\<lambda>w. py_str (kod w)) feed"

definition decimal_value :: "string \<Rightarrow> nat" where
  "decimal_value s = foldl (\<lambda>a c. 10 * a + digit_val c) 0 s"

definition rub :: string where
  "rub = [CHR 0xD1, CHR 0x80, CHR 0xD1, CHR 0x83, CHR 0xD0, CHR 0xB1]"

definition seller_price_entry :: "string \<Rightarrow> string \<Rightarrow> seller_price" where
  "seller_price_entry code p =
     \<lparr>auto_action_enabled = ''UNKNOWN'', currency_code = ''RUB'',
      price_offer_id = code, old_price = ''0'', price = p\<rparr>"

definition to_market :: "string \<Rightarrow> string \<Rightarrow> seller_stock \<Rightarrow> market_stock" where
  "to_market date warehouse_id s = market_stock_entry date warehouse_id (offer_id s) (stock s)"

definition feed_example :: "watch list" where
  "feed_example =
     [\<lparr>kod = PStr ''A1'', kolichestvo = PStr ''>10'', tsena = PStr (''100.00'' @ [CHR 0xD1, CHR 0x80])\<rparr>,
      \<lparr>kod = PStr ''A2'', kolichestvo = PStr ''1'', tsena = PStr (''50.00'' @ [CHR 0xD1, CHR 0x80])\<rparr>]"

definition catalog_example :: "string list" where
  "catalog_example = [''A1'', ''A2'', ''A3'']"


definition within_caps :: "nat \<Rightarrow> nat \<Rightarrow> ('s, 'p) call \<Rightarrow> bool" where
  "within_caps stock_cap price_cap c =
     (case c of
        UpdateStocks some_stock \<Rightarrow> 1 \<le> length some_stock \<and> length some_stock \<le> stock_cap
      | UpdatePrice some_price \<Rightarrow> 1 \<le> length some_price \<and> length some_price \<le> price_cap)"

definition product_example :: product where
  "product_example = \<lparr>product_id = 1, item_offer_id = ''x''\<rparr>"

definition seller_server_example :: "string \<Rightarrow> unit \<Rightarrow> (error + seller_page) \<times> unit" where
  "seller_server_example last_id s =
     (Inr \<lparr>result_items = [product_example], result_total = 2, result_last_id = []\<rparr>, s)"

definition market_server_example :: "string option \<Rightarrow> unit \<Rightarrow> (error + market_page) \<times> unit" where
  "market_server_example page s =
     (Inr \<lparr>offerMappingEntries = [\<lparr>shopSku = ''x''\<rparr>], nextPageToken = None\<rparr>, s)"

definition restamp :: "string \<Rightarrow> market_stock \<Rightarrow> market_stock" where
  "restamp date s = s\<lparr>items := map (\<lambda>i. i\<lparr>updatedAt := date\<rparr>) (items s)\<rparr>"

definition digit_step :: "nat \<Rightarrow> char \<Rightarrow> nat" where
  "digit_step a c = 10 * a + digit_val c"

definition literal_body :: "string \<Rightarrow> bool" where
  "literal_body b =
     (\<exists>g gs. b = g @ concat (map ((#) CHR ''_'') gs)
        \<and> (\<forall>h \<in> set (g # gs). h \<noteq> [] \<and> (\<forall>c \<in> set h. is_digit c)))"

definition numeric :: "string \<Rightarrow> int \<Rightarrow> bool" where
  "numeric s v =
     (\<exists>pre sg b post. s = pre @ sg @ b @ post
        \<and> (\<forall>c \<in> set (pre @ post). is_space c)
        \<and> (sg = [] \<or> sg = ''+'' \<or> sg = ''-'')
        \<and> literal_body b
        \<and> length (filter is_digit b) \<le> 4300
        \<and> v = (if sg = ''-'' then - int (decimal_value (filter is_digit b))
               else int (decimal_value (filter is_digit b))))"

fun matched_rows :: "string list \<Rightarrow> string list \<Rightarrow> watch list \<Rightarrow> watch list" where
  "matched_rows seen ids [] = []"
| "matched_rows seen ids (w # ws) =
     (if count_list seen (py_str (kod w)) < count_list ids (py_str (kod w))
      then w # matched_rows (seen @ [py_str (kod w)]) ids ws
      else matched_rows (seen @ [py_str (kod w)]) ids ws)"

definition stock_record :: "watch \<Rightarrow> error + seller_stock" where
  "stock_record w =
     (case normalize_count w of
        Inl e \<Rightarrow> Inl e
      | Inr st \<Rightarrow> Inr \<lparr>offer_id = py_str (kod w), stock = st\<rparr>)"

definition price_record :: "watch \<Rightarrow> error + seller_price" where
  "price_record w =
     (case price_conversion (tsena w) of
        Inl e \<Rightarrow> Inl e
      | Inr p \<Rightarrow> Inr (seller_price_entry (py_str (kod w)) p))"

definition market_stock_record :: "string \<Rightarrow> string \<Rightarrow> watch \<Rightarrow> error + market_stock" where
  "market_stock_record date warehouse_id w =
     (case normalize_count w of
        Inl e \<Rightarrow> Inl e
      | Inr st \<Rightarrow> Inr (market_stock_entry date warehouse_id (py_str (kod w)) st))"

definition market_price_record :: "watch \<Rightarrow> error + market_price" where
  "market_price_record w =
     (case price_conversion (tsena w) of
        Inl e \<Rightarrow> Inl e
      | Inr p \<Rightarrow>
          (case int_of_str p of
             Inl e \<Rightarrow> Inl e
           | Inr v \<Rightarrow> Inr \<lparr>price_id = py_str (kod w),
                           market_price = \<lparr>price_value = v, currencyId = ''RUR''\<rparr>\<rparr>))"

definition accepts_all :: "'u list \<Rightarrow> error option" where
  "accepts_all some = None"

definition feed_single :: "watch list" where
  "feed_single = [\<lparr>kod = PStr ''A1'', kolichestvo = PStr ''5'', tsena = PStr ''10.00''\<rparr>]"

declare range_up.simps [simp del] range_down.simps [simp del]


section \<open>Batch splitting\<close>

lemma py_slice_inner:
  assumes "0 < n"
  shows "py_slice xs (int k) (int k + n) = take (nat n) (drop k xs)"
proof -
  have hi: "nat (int k + n) = k + nat n"
    using assms by (simp add: nat_add_distrib)
  show ?thesis
  proof (cases "k + nat n \<le> length xs")
    case True
    then show ?thesis
      using assms by (simp add: py_slice_def slice_index_def Let_def hi min_def)
  next
    case False
    then show ?thesis
      using assms by (cases "k \<le> length xs") (simp_all add: py_slice_def slice_index_def Let_def hi min_def)
  qed
qed

lemma chunks_at_step:
  assumes "0 < n"
  shows "chunks_at xs n k =
     (if k < length xs then take (nat n) (drop k xs) # chunks_at xs n (k + nat n) else [])"
proof -
  have nxt: "int k + n = int (k + nat n)"
    using assms by simp
  have "range_up (int k) (int (length xs)) n =
      (if k < length xs then int k # range_up (int (k + nat n)) (int (length xs)) n else [])"
    using assms by (subst range_up.simps) (simp add: nxt del: of_nat_add)
  then show ?thesis
    using py_slice_inner [OF assms, of xs k] by (simp add: chunks_at_def)
qed

lemma concat_chunks_at:
  assumes "0 < n"
  shows "concat (chunks_at xs n k) = drop k xs"
proof (induction "length xs - k" arbitrary: k rule: less_induct)
  case less
  show ?case
  proof (cases "k < length xs")
    case True
    have "length xs - (k + nat n) < length xs - k"
      using True assms by simp
    then have "concat (chunks_at xs n (k + nat n)) = drop (k + nat n) xs"
      by (rule less)
    moreover have "drop (k + nat n) xs = drop (nat n) (drop k xs)"
      by (simp add: add.commute)
    ultimately have "take (nat n) (drop k xs) @ concat (chunks_at xs n (k + nat n)) = drop k xs"
      by (simp only: append_take_drop_id)
    then show ?thesis
      using True by (subst chunks_at_step [OF assms]) simp
  next
    case False
    then show ?thesis
      by (subst chunks_at_step [OF assms]) simp
  qed
qed

lemma length_chunks_at:
  assumes "0 < n"
  shows "length (chunks_at xs n k) = (length xs - k + nat n - 1) div nat n"
proof (induction "length xs - k" arbitrary: k rule: less_induct)
  case less
  have m: "0 < nat n" using assms by simp
  show ?case
  proof (cases "k < length xs")
    case True
    have "length xs - (k + nat n) < length xs - k"
      using True assms by simp
    then have ih: "length (chunks_at xs n (k + nat n)) = (length xs - (k + nat n) + nat n - 1) div nat n"
      by (rule less)
    have "(length xs - k + nat n - 1) div nat n = Suc ((length xs - (k + nat n) + nat n - 1) div nat n)"
    proof (cases "k + nat n \<le> length xs")
      case True
      then have e: "length xs - k + nat n - 1 = (length xs - (k + nat n) + nat n - 1) + nat n"
        using m by arith
      have mz: "nat n \<noteq> 0" using m by simp
      show ?thesis
        by (simp only: e div_add_self2 [OF mz] Suc_eq_plus1)
    next
      case False
      define t where "t = length xs - k + nat n - 1"
      define u where "u = length xs - (k + nat n) + nat n - 1"
      have a: "u < nat n" using False m by (simp add: u_def)
      have b: "nat n * 1 \<le> t" using \<open>k < length xs\<close> by (simp add: t_def)
      have c: "t < nat n * Suc 1" using False m by (simp add: t_def)
      have "t div nat n = 1"
        using b c by (rule div_nat_eqI)
      moreover have "u div nat n = 0"
        using a by simp
      ultimately show ?thesis
        by (simp add: t_def u_def)
    qed
    then show ?thesis
      using True ih by (subst chunks_at_step [OF assms]) simp
  next
    case False
    then show ?thesis
      using m by (subst chunks_at_step [OF assms]) simp
  qed
qed

lemma chunk_sizes_at:
  assumes "0 < n"
  shows "c \<in> set (chunks_at xs n k) \<Longrightarrow> 1 \<le> length c \<and> length c \<le> nat n"
proof (induction "length xs - k" arbitrary: k rule: less_induct)
  case less
  from less.prems have lt: "k < length xs"
    by (subst (asm) chunks_at_step [OF assms]) (simp split: if_splits)
  have dec: "length xs - (k + nat n) < length xs - k"
    using lt assms by simp
  from less.prems lt have "c = take (nat n) (drop k xs) \<or> c \<in> set (chunks_at xs n (k + nat n))"
    by (subst (asm) chunks_at_step [OF assms]) simp
  then show ?case
  proof
    assume "c = take (nat n) (drop k xs)"
    moreover have "Suc 0 \<le> length xs - k" "Suc 0 \<le> nat n"
      using lt assms by simp_all
    ultimately show ?thesis by simp
  next
    assume "c \<in> set (chunks_at xs n (k + nat n))"
    then show ?thesis using less.hyps [OF dec] by simp
  qed
qed

lemma full_chunks_at:
  assumes "0 < n"
  shows "Suc j < length (chunks_at xs n k) \<Longrightarrow> length (chunks_at xs n k ! j) = nat n"
proof (induction j arbitrary: k)
  case 0
  then have lt: "k < length xs"
    by (subst (asm) chunks_at_step [OF assms]) (simp split: if_splits)
  with 0 have "chunks_at xs n (k + nat n) \<noteq> []"
    by (subst (asm) chunks_at_step [OF assms]) simp
  then have "k + nat n < length xs"
    by (subst (asm) chunks_at_step [OF assms]) (simp split: if_splits)
  then show ?case
    using lt by (subst chunks_at_step [OF assms]) simp
next
  case (Suc j)
  then have lt: "k < length xs"
    by (subst (asm) chunks_at_step [OF assms]) (simp split: if_splits)
  with Suc.prems have "Suc j < length (chunks_at xs n (k + nat n))"
    by (subst (asm) chunks_at_step [OF assms]) simp
  then have "length (chunks_at xs n (k + nat n) ! j) = nat n"
    by (rule Suc.IH)
  then show ?case
    using lt by (subst chunks_at_step [OF assms]) simp
qed

lemma divide_lst_pos:
  "0 < n \<Longrightarrow> divide_lst lst n = Inr (chunks_at lst n 0)"
  by (simp add: divide_lst_def py_range_def chunks_at_def)

lemma ceil_div_int:
  assumes "0 < (b::int)"
  shows "- (- a div b) = (a + b - 1) div b"
proof -
  have bz: "b \<noteq> 0" using assms by simp
  have r: "0 \<le> a mod b" "a mod b < b" using assms by simp_all
  have a: "a = b * (a div b) + a mod b" by simp
  show ?thesis
  proof (cases "a mod b = 0")
    case True
    have "a + b - 1 = b * (a div b) + (b - 1)" using a True by simp
    then have "(a + b - 1) div b = a div b"
      by (rule int_div_pos_eq) (use assms in simp_all)
    then show ?thesis using True by (simp add: zdiv_zminus1_eq_if [OF bz])
  next
    case False
    have "a + b - 1 = b * (a div b + 1) + (a mod b - 1)"
      using a by (simp add: algebra_simps)
    then have "(a + b - 1) div b = a div b + 1"
      by (rule int_div_pos_eq) (use r False in simp_all)
    then show ?thesis using False by (simp add: zdiv_zminus1_eq_if [OF bz])
  qed
qed

lemma ceil_div_nat:
  assumes "0 < m"
  shows "int ((L + m - 1) div m) = \<lceil>real L / real m\<rceil>"
proof -
  have "\<lceil>real L / real m\<rceil> = \<lceil>of_int (int L) / (of_int (int m) :: real)\<rceil>" by simp
  also have "\<dots> = - (- int L div int m)" by (rule ceiling_divide_eq_div)
  also have "\<dots> = (int L + int m - 1) div int m" using assms by (simp add: ceil_div_int)
  also have "\<dots> = int ((L + m - 1) div m)" using assms by (simp add: zdiv_int of_nat_diff)
  finally show ?thesis by simp
qed


lemma nth_chunks_at:
  assumes "0 < n"
  shows "j < length (chunks_at xs n k) \<Longrightarrow>
     chunks_at xs n k ! j = take (nat n) (drop (k + j * nat n) xs)"
proof (induction j arbitrary: k)
  case 0
  then have "k < length xs"
    by (subst (asm) chunks_at_step [OF assms]) (simp split: if_splits)
  then show ?case
    by (subst chunks_at_step [OF assms]) simp
next
  case (Suc j)
  then have lt: "k < length xs"
    by (subst (asm) chunks_at_step [OF assms]) (simp split: if_splits)
  with Suc.prems have "j < length (chunks_at xs n (k + nat n))"
    by (subst (asm) chunks_at_step [OF assms]) simp
  then have "chunks_at xs n (k + nat n) ! j = take (nat n) (drop (k + nat n + j * nat n) xs)"
    by (rule Suc.IH)
  then show ?case
    using lt by (subst chunks_at_step [OF assms]) (simp add: add.assoc)
qed

lemma divide_lst_zero: "divide_lst lst 0 = Inl ValueError"
  by (simp add: divide_lst_def py_range_def)

lemma divide_lst_neg: "n < 0 \<Longrightarrow> divide_lst lst n = Inr []"
  by (simp add: divide_lst_def py_range_def range_down.simps)

text \<open>
  C6. For a list of length \<open>L\<close> and a chunk size \<open>n \<ge> 1\<close>, \<open>divide\<close> yields exactly
  \<open>\<lceil>L / n\<rceil>\<close> chunks; chunk \<open>j\<close> is the slice of \<open>n\<close> elements starting at \<open>j * n\<close>,
  every chunk but the last has exactly \<open>n\<close> elements, the last has between 1 and \<open>n\<close>,
  and the chunks concatenated in order give back the list.
\<close>

theorem divide_partitions:
  assumes "1 \<le> n"
  shows "\<exists>cs. divide_lst lst n = Inr cs
     \<and> int (length cs) = \<lceil>real (length lst) / real_of_int n\<rceil>
     \<and> (\<forall>j. j < length cs \<longrightarrow> cs ! j = take (nat n) (drop (j * nat n) lst))
     \<and> (\<forall>j. Suc j < length cs \<longrightarrow> length (cs ! j) = nat n)
     \<and> (cs \<noteq> [] \<longrightarrow> 1 \<le> length (last cs) \<and> length (last cs) \<le> nat n)
     \<and> concat cs = lst"
proof -
  from assms have pos: "0 < n" by simp
  let ?cs = "chunks_at lst n 0"
  have m: "0 < nat n" using pos by simp
  have "int (length ?cs) = int ((length lst + nat n - 1) div nat n)"
    by (simp add: length_chunks_at [OF pos])
  also have "\<dots> = \<lceil>real (length lst) / real (nat n)\<rceil>"
    by (rule ceil_div_nat [OF m])
  finally have count: "int (length ?cs) = \<lceil>real (length lst) / real_of_int n\<rceil>"
    using pos by simp
  have slices: "\<forall>j. j < length ?cs \<longrightarrow> ?cs ! j = take (nat n) (drop (j * nat n) lst)"
    using nth_chunks_at [OF pos, of _ lst 0] by simp
  have full: "\<forall>j. Suc j < length ?cs \<longrightarrow> length (?cs ! j) = nat n"
    using full_chunks_at [OF pos] by blast
  have lst: "?cs \<noteq> [] \<longrightarrow> 1 \<le> length (last ?cs) \<and> length (last ?cs) \<le> nat n"
    using chunk_sizes_at [OF pos, of "last ?cs" lst 0] by simp
  have cat: "concat ?cs = lst"
    by (simp add: concat_chunks_at [OF pos])
  show ?thesis
    using divide_lst_pos [OF pos, of lst] count slices full lst cat by blast
qed

theorem divide_partitions_witness:
  "(1::int) \<le> 2
   \<and> divide_lst [10, 20, 30, 40, 50 :: nat] 2 = Inr [[10, 20], [30, 40], [50]]
   \<and> \<lceil>real (length [10, 20, 30, 40, 50 :: nat]) / real_of_int 2\<rceil> = 3"
proof -
  have one: "(1::int) \<le> 2" by simp
  obtain cs where cs: "divide_lst [10, 20, 30, 40, 50 :: nat] 2 = Inr cs"
      and n: "int (length cs) = \<lceil>real (length [10, 20, 30, 40, 50 :: nat]) / real_of_int 2\<rceil>"
    using divide_partitions [OF one, of "[10, 20, 30, 40, 50 :: nat]"] by blast
  have ev: "divide_lst [10, 20, 30, 40, 50 :: nat] 2 = Inr [[10, 20], [30, 40], [50]]"
    by (simp add: divide_lst_def py_range_def range_up.simps py_slice_def slice_index_def)
  with cs have "cs = [[10, 20], [30, 40], [50]]" by simp
  with n have "\<lceil>real (length [10, 20, 30, 40, 50 :: nat]) / real_of_int 2\<rceil> = 3" by simp
  with one ev show ?thesis by simp
qed

text \<open>
  C10. \<open>divide\<close> meets its batching contract only under \<open>n \<ge> 1\<close>: there it returns
  chunks, none of them empty, that concatenate to the list. With \<open>n = 0\<close> iterating it raises
  (\<open>range\<close> refuses a zero step); with \<open>n < 0\<close> it yields no chunk at all, so on a
  non-empty list the elements are silently lost.
\<close>

theorem divide_needs_positive_size:
  "(1 \<le> n \<longrightarrow> (\<exists>cs. divide_lst lst n = Inr cs \<and> [] \<notin> set cs \<and> concat cs = lst))
   \<and> divide_lst lst 0 = Inl ValueError
   \<and> (n < 0 \<longrightarrow> divide_lst lst n = Inr [])
   \<and> (n < 0 \<and> lst \<noteq> [] \<longrightarrow> (\<exists>cs. divide_lst lst n = Inr cs \<and> cs = [] \<and> concat cs \<noteq> lst))"
proof -
  have a: "\<exists>cs. divide_lst lst n = Inr cs \<and> [] \<notin> set cs \<and> concat cs = lst" if "1 \<le> n"
  proof -
    from that have pos: "0 < n" by simp
    have "[] \<notin> set (chunks_at lst n 0)"
      using chunk_sizes_at [OF pos, of "[]" lst 0] by auto
    then show ?thesis
      using divide_lst_pos [OF pos, of lst] concat_chunks_at [OF pos, of lst 0] by simp
  qed
  show ?thesis
    using a by (auto simp: divide_lst_zero divide_lst_neg)
qed

theorem divide_needs_positive_size_witness:
  "divide_lst [10, 20, 30 :: nat] 2 = Inr [[10, 20], [30]]
   \<and> divide_lst [10, 20, 30 :: nat] 0 = Inl ValueError
   \<and> divide_lst [10, 20, 30 :: nat] (- 2) = Inr []"
proof -
  have ev: "divide_lst [10, 20, 30 :: nat] 2 = Inr [[10, 20], [30]]"
    by (simp add: divide_lst_def py_range_def range_up.simps py_slice_def slice_index_def)
  show ?thesis
    using divide_needs_positive_size [of "- 2" "[10, 20, 30 :: nat]"]
      divide_needs_positive_size [of 2 "[10, 20, 30 :: nat]"] ev
    by simp
qed


section \<open>Quantity normalization\<close>

lemma digit_not_space: "is_digit c \<Longrightarrow> \<not> is_space c"
  by (auto simp: is_digit_def is_space_def)

lemma digit_not_sign: "is_digit c \<Longrightarrow> c \<noteq> CHR ''-'' \<and> c \<noteq> CHR ''+'' \<and> c \<noteq> CHR ''_''"
  by (auto simp: is_digit_def)

lemma sign_not_space: "\<not> is_space CHR ''-''" "\<not> is_space CHR ''+''"
  by (simp_all add: is_space_def)

lemma decimal_value_foldl: "decimal_value s = foldl digit_step 0 s"
proof -
  have "digit_step = (\<lambda>a c. 10 * a + digit_val c)"
    by (intro ext) (simp add: digit_step_def)
  then show ?thesis by (simp add: decimal_value_def)
qed

lemma int_digits_run:
  "\<forall>c \<in> set g. is_digit c \<Longrightarrow> int_digits (g @ rest) acc = int_digits rest (foldl digit_step acc g)"
  by (induction g arbitrary: acc) (simp_all add: digit_step_def [symmetric])

lemma int_digits_group:
  assumes "g \<noteq> []" "\<forall>c \<in> set g. is_digit c"
  shows "int_digits (CHR ''_'' # g @ rest) acc = int_digits rest (foldl digit_step acc g)"
proof -
  obtain d g' where g: "g = d # g'" using assms(1) by (cases g) auto
  have nd: "\<not> is_digit CHR ''_''" by (simp add: is_digit_def)
  have d: "is_digit d" and g': "\<forall>c \<in> set g'. is_digit c" using assms(2) g by simp_all
  show ?thesis
    using int_digits_run [OF g', of rest "digit_step acc d"] d nd
    by (simp add: g digit_step_def [symmetric])
qed

lemma int_digits_groups:
  "\<forall>h \<in> set gs. h \<noteq> [] \<and> (\<forall>c \<in> set h. is_digit c) \<Longrightarrow>
     int_digits (concat (map ((#) CHR ''_'') gs)) acc = Some (foldl digit_step acc (concat gs))"
proof (induction gs arbitrary: acc)
  case Nil
  then show ?case by simp
next
  case (Cons h gs)
  have h: "h \<noteq> []" "\<forall>c \<in> set h. is_digit c" using Cons.prems by simp_all
  have rest: "\<forall>h \<in> set gs. h \<noteq> [] \<and> (\<forall>c \<in> set h. is_digit c)" using Cons.prems by simp
  have "int_digits (concat (map ((#) CHR ''_'') (h # gs))) acc
      = int_digits (CHR ''_'' # h @ concat (map ((#) CHR ''_'') gs)) acc"
    by simp
  also have "\<dots> = int_digits (concat (map ((#) CHR ''_'') gs)) (foldl digit_step acc h)"
    by (rule int_digits_group [OF h])
  also have "\<dots> = Some (foldl digit_step (foldl digit_step acc h) (concat gs))"
    by (rule Cons.IH [OF rest])
  finally show ?case by simp
qed

lemma int_digits_shape:
  "int_digits cs acc = Some v \<Longrightarrow>
     \<exists>g gs. cs = g @ concat (map ((#) CHR ''_'') gs) \<and> (\<forall>c \<in> set g. is_digit c)
        \<and> (\<forall>h \<in> set gs. h \<noteq> [] \<and> (\<forall>c \<in> set h. is_digit c))
        \<and> v = foldl digit_step acc (g @ concat gs)"
proof (induction cs acc rule: int_digits.induct)
  case (1 acc)
  then show ?case by (intro exI [of _ "[]"]) simp
next
  case (2 c cs acc)
  show ?case
  proof (cases "is_digit c")
    case True
    with "2.prems" have "int_digits cs (10 * acc + digit_val c) = Some v" by simp
    from "2.IH"(1) [OF True this] obtain g gs where
      r: "cs = g @ concat (map ((#) CHR ''_'') gs)" "\<forall>c \<in> set g. is_digit c"
        "\<forall>h \<in> set gs. h \<noteq> [] \<and> (\<forall>c \<in> set h. is_digit c)"
        "v = foldl digit_step (10 * acc + digit_val c) (g @ concat gs)" by blast
    show ?thesis
      using r True by (intro exI [of _ "c # g"] exI [of _ gs]) (simp add: digit_step_def [symmetric])
  next
    case False
    with "2.prems" obtain d ds where u: "c = CHR ''_''" and cs: "cs = d # ds" and d: "is_digit d"
      and rec: "int_digits ds (10 * acc + digit_val d) = Some v"
      by (auto split: if_splits list.splits)
    from "2.IH"(2) [OF False u cs d rec] obtain g gs where
      r: "ds = g @ concat (map ((#) CHR ''_'') gs)" "\<forall>c \<in> set g. is_digit c"
        "\<forall>h \<in> set gs. h \<noteq> [] \<and> (\<forall>c \<in> set h. is_digit c)"
        "v = foldl digit_step (10 * acc + digit_val d) (g @ concat gs)" by blast
    show ?thesis
      using r u cs d by (intro exI [of _ "[]"] exI [of _ "(d # g) # gs"]) (simp add: digit_step_def [symmetric])
  qed
qed

lemma filter_digits_body:
  assumes "\<forall>c \<in> set g. is_digit c" "\<forall>h \<in> set gs. h \<noteq> [] \<and> (\<forall>c \<in> set h. is_digit c)"
  shows "filter is_digit (g @ concat (map ((#) CHR ''_'') gs)) = g @ concat gs"
proof -
  have nd: "\<not> is_digit CHR ''_''" by (simp add: is_digit_def)
  have "filter is_digit (concat (map ((#) CHR ''_'') gs)) = concat gs"
    using assms(2) by (induction gs) (simp_all add: nd)
  then show ?thesis using assms(1) by simp
qed

lemma int_unsigned_iff:
  "int_unsigned b = Some n \<longleftrightarrow>
     literal_body b \<and> length (filter is_digit b) \<le> 4300 \<and> n = decimal_value (filter is_digit b)"
proof
  assume a: "int_unsigned b = Some n"
  then obtain c cs where b: "b = c # cs" and c: "is_digit c"
    and lim: "length (filter is_digit b) \<le> 4300"
    and rec: "int_digits cs (digit_val c) = Some n"
    by (cases b) (auto simp: int_unsigned_def max_str_digits_def split: if_splits)
  from int_digits_shape [OF rec] obtain g gs where
    r: "cs = g @ concat (map ((#) CHR ''_'') gs)" "\<forall>c \<in> set g. is_digit c"
      "\<forall>h \<in> set gs. h \<noteq> [] \<and> (\<forall>c \<in> set h. is_digit c)"
      "n = foldl digit_step (digit_val c) (g @ concat gs)" by blast
  have cg: "\<forall>x \<in> set (c # g). is_digit x" using c r(2) by simp
  have shape: "b = (c # g) @ concat (map ((#) CHR ''_'') gs)" using b r(1) by simp
  have lit: "literal_body b"
    unfolding literal_body_def using shape cg r(3)
    by (intro exI [of _ "c # g"] exI [of _ gs]) simp
  have "filter is_digit b = (c # g) @ concat gs"
    unfolding shape by (rule filter_digits_body [OF cg r(3)])
  then have "decimal_value (filter is_digit b) = n"
    by (simp add: decimal_value_foldl r(4) digit_step_def [of 0 c])
  with lit lim show "literal_body b \<and> length (filter is_digit b) \<le> 4300
      \<and> n = decimal_value (filter is_digit b)" by simp
next
  assume a: "literal_body b \<and> length (filter is_digit b) \<le> 4300
      \<and> n = decimal_value (filter is_digit b)"
  then obtain g gs where shape: "b = g @ concat (map ((#) CHR ''_'') gs)"
    and g: "g \<noteq> []" "\<forall>c \<in> set g. is_digit c"
    and gs: "\<forall>h \<in> set gs. h \<noteq> [] \<and> (\<forall>c \<in> set h. is_digit c)"
    by (auto simp: literal_body_def)
  obtain c g' where cg: "g = c # g'" using g(1) by (cases g) auto
  have c: "is_digit c" and g': "\<forall>x \<in> set g'. is_digit x" using g(2) cg by simp_all
  have fd: "filter is_digit b = g @ concat gs"
    unfolding shape by (rule filter_digits_body [OF g(2) gs])
  have "int_digits (g' @ concat (map ((#) CHR ''_'') gs)) (digit_val c)
      = int_digits (concat (map ((#) CHR ''_'') gs)) (foldl digit_step (digit_val c) g')"
    by (rule int_digits_run [OF g'])
  also have "\<dots> = Some (foldl digit_step (foldl digit_step (digit_val c) g') (concat gs))"
    by (rule int_digits_groups [OF gs])
  also have "\<dots> = Some (decimal_value (filter is_digit b))"
    by (simp add: fd cg decimal_value_foldl digit_step_def [of 0 c])
  finally have "int_digits (g' @ concat (map ((#) CHR ''_'') gs)) (digit_val c) = Some n"
    using a by simp
  then show "int_unsigned b = Some n"
    using a c by (simp add: int_unsigned_def max_str_digits_def shape cg)
qed

lemma literal_body_ends:
  assumes "literal_body b"
  shows "b \<noteq> [] \<and> is_digit (hd b) \<and> is_digit (last b)"
proof -
  from assms obtain g gs where shape: "b = g @ concat (map ((#) CHR ''_'') gs)"
    and g: "g \<noteq> []" "\<forall>c \<in> set g. is_digit c"
    and gs: "\<forall>h \<in> set gs. h \<noteq> [] \<and> (\<forall>c \<in> set h. is_digit c)"
    by (auto simp: literal_body_def)
  have hd: "is_digit (hd b)" using g shape by (cases g) simp_all
  have "is_digit (last b)"
  proof (cases gs rule: rev_cases)
    case Nil
    then show ?thesis using g shape by simp
  next
    case (snoc gs' h)
    then have h: "h \<noteq> []" "\<forall>c \<in> set h. is_digit c" using gs by simp_all
    have "last b = last h" using shape snoc h(1) by simp
    then show ?thesis using h by simp
  qed
  with hd g shape show ?thesis by simp
qed

lemma strip_parts:
  assumes "strip s = t" "t \<noteq> []"
  shows "\<exists>pre post. s = pre @ t @ post \<and> (\<forall>c \<in> set (pre @ post). is_space c)"
proof -
  let ?u = "dropWhile is_space s"
  have t: "t = rev (dropWhile is_space (rev ?u))" using assms(1) by (simp add: strip_def)
  have "rev ?u = takeWhile is_space (rev ?u) @ dropWhile is_space (rev ?u)" by simp
  then have "?u = rev (dropWhile is_space (rev ?u)) @ rev (takeWhile is_space (rev ?u))"
    by (metis rev_append rev_rev_ident)
  then have u: "?u = t @ rev (takeWhile is_space (rev ?u))" using t by simp
  have "s = takeWhile is_space s @ ?u" by simp
  then have s: "s = takeWhile is_space s @ t @ rev (takeWhile is_space (rev ?u))"
    using u by simp
  have "\<forall>c \<in> set (takeWhile is_space s @ rev (takeWhile is_space (rev ?u))). is_space c"
    by (auto dest: set_takeWhileD)
  with s show ?thesis by blast
qed

lemma strip_of_parts:
  assumes "\<forall>c \<in> set (pre @ post). is_space c" "t \<noteq> []" "\<not> is_space (hd t)" "\<not> is_space (last t)"
  shows "strip (pre @ t @ post) = t"
proof -
  obtain x xs where t: "t = x # xs" using assms(2) by (cases t) auto
  have pre: "\<forall>c \<in> set pre. is_space c" and post: "\<forall>c \<in> set (rev post). is_space c"
    using assms(1) by simp_all
  have x: "\<not> is_space x" using assms(3) t by simp
  have a: "dropWhile is_space (pre @ t @ post) = t @ post"
    using pre x by (simp add: t dropWhile_append3)
  obtain y ys where rt: "rev t = y # ys" using assms(2) by (cases "rev t") auto
  have "y = last t" using rt by (metis assms(2) hd_rev list.sel(1))
  then have y: "\<not> is_space y" using assms(4) by simp
  have "dropWhile is_space (rev post @ rev t) = rev t"
    using post y by (simp add: rt dropWhile_append3)
  then show ?thesis by (simp add: strip_def a)
qed

lemma int_of_ascii_iff: "int_of_ascii s = Inr v \<longleftrightarrow> numeric s v"
proof
  assume a: "int_of_ascii s = Inr v"
  then obtain c cs where st: "strip s = c # cs"
    by (cases "strip s") (auto simp: int_of_ascii_def)
  from strip_parts [OF st] obtain pre post where
    s: "s = pre @ (c # cs) @ post" and sp: "\<forall>c \<in> set (pre @ post). is_space c" by auto
  consider (minus) n where "c = CHR ''-''" "int_unsigned cs = Some n" "v = - int n"
    | (plus) n where "c = CHR ''+''" "int_unsigned cs = Some n" "v = int n"
    | (none) n where "c \<noteq> CHR ''-''" "c \<noteq> CHR ''+''" "int_unsigned (c # cs) = Some n" "v = int n"
    using a st by (auto simp: int_of_ascii_def split: if_splits option.splits)
  then show "numeric s v"
  proof cases
    case minus
    then have "literal_body cs \<and> length (filter is_digit cs) \<le> 4300
        \<and> n = decimal_value (filter is_digit cs)" by (simp add: int_unsigned_iff)
    then show ?thesis
      unfolding numeric_def using s sp minus
      by (intro exI [of _ pre] exI [of _ "''-''"] exI [of _ cs] exI [of _ post]) simp
  next
    case plus
    then have "literal_body cs \<and> length (filter is_digit cs) \<le> 4300
        \<and> n = decimal_value (filter is_digit cs)" by (simp add: int_unsigned_iff)
    then show ?thesis
      unfolding numeric_def using s sp plus
      by (intro exI [of _ pre] exI [of _ "''+''"] exI [of _ cs] exI [of _ post]) simp
  next
    case none
    then have "literal_body (c # cs) \<and> length (filter is_digit (c # cs)) \<le> 4300
        \<and> n = decimal_value (filter is_digit (c # cs))" by (simp add: int_unsigned_iff)
    then show ?thesis
      unfolding numeric_def using s sp none
      by (intro exI [of _ pre] exI [of _ "[]"] exI [of _ "c # cs"] exI [of _ post]) simp
  qed
next
  assume "numeric s v"
  then obtain pre sg b post where s: "s = pre @ sg @ b @ post"
    and sp: "\<forall>c \<in> set (pre @ post). is_space c"
    and sg: "sg = [] \<or> sg = ''+'' \<or> sg = ''-''"
    and lit: "literal_body b" and lim: "length (filter is_digit b) \<le> 4300"
    and v: "v = (if sg = ''-'' then - int (decimal_value (filter is_digit b))
               else int (decimal_value (filter is_digit b)))"
    by (auto simp: numeric_def)
  from literal_body_ends [OF lit] have b: "b \<noteq> []" "is_digit (hd b)" "is_digit (last b)" by simp_all
  have u: "int_unsigned b = Some (decimal_value (filter is_digit b))"
    using lit lim by (simp add: int_unsigned_iff)
  have ne: "sg @ b \<noteq> []" using b(1) by simp
  have hd: "\<not> is_space (hd (sg @ b))"
    using sg b(1,2) digit_not_space sign_not_space by (cases b) auto
  have lst: "\<not> is_space (last (sg @ b))"
    using b(1,3) digit_not_space by simp
  have "strip (pre @ (sg @ b) @ post) = sg @ b"
    by (rule strip_of_parts [OF sp ne hd lst])
  then have st: "strip s = sg @ b" using s by simp
  obtain c cs where bc: "b = c # cs" using b(1) by (cases b) auto
  have c: "c \<noteq> CHR ''-''" "c \<noteq> CHR ''+''" using b(2) bc digit_not_sign by auto
  from sg show "int_of_ascii s = Inr v"
  proof (elim disjE)
    assume "sg = []"
    then show ?thesis using st u v c bc by (simp add: int_of_ascii_def)
  next
    assume "sg = ''+''"
    then show ?thesis using st u v by (simp add: int_of_ascii_def)
  next
    assume "sg = ''-''"
    then show ?thesis using st u v by (simp add: int_of_ascii_def)
  qed
qed

lemma int_of_ascii_cases: "int_of_ascii s = Inl ValueError \<or> (\<exists>v. int_of_ascii s = Inr v)"
  by (auto simp: int_of_ascii_def split: list.splits option.splits)

lemma int_of_str_numeric: "numeric (ascii_form s) v \<Longrightarrow> int_of_str s = Inr v"
  by (simp add: int_of_str_def int_of_ascii_iff)

lemma int_of_str_not_numeric:
  assumes "\<forall>v. \<not> numeric (ascii_form s) v"
  shows "int_of_str s = Inl ValueError"
  using assms int_of_ascii_cases [of "ascii_form s"] by (auto simp: int_of_str_def int_of_ascii_iff)

lemma ascii_form_ascii: "is_ascii s \<Longrightarrow> ascii_form s = s"
  by (simp add: ascii_form_def)

lemma digit_ascii: "is_digit c \<Longrightarrow> (of_char c :: nat) < 128"
proof -
  assume "is_digit c"
  then have "c = CHR ''0'' \<or> c = CHR ''1'' \<or> c = CHR ''2'' \<or> c = CHR ''3'' \<or> c = CHR ''4''
      \<or> c = CHR ''5'' \<or> c = CHR ''6'' \<or> c = CHR ''7'' \<or> c = CHR ''8'' \<or> c = CHR ''9''"
    by (simp add: is_digit_def)
  then show ?thesis by (elim disjE) simp_all
qed

lemma digits_ascii: "\<forall>c \<in> set s. is_digit c \<Longrightarrow> is_ascii s"
  unfolding is_ascii_def using digit_ascii by blast

lemma numeric_digits:
  assumes "s \<noteq> []" "\<forall>c \<in> set s. is_digit c" "length s \<le> 4300"
  shows "numeric s (int (decimal_value s))"
proof -
  have lit: "literal_body s"
    unfolding literal_body_def using assms(1,2)
    by (intro exI [of _ s] exI [of _ "[]"]) simp
  have f: "filter is_digit s = s" using assms(2) by simp
  show ?thesis
    unfolding numeric_def using lit f assms(3)
    by (intro exI [of _ "[]"] exI [of _ "[]"] exI [of _ s] exI [of _ "[]"]) simp
qed

lemma numeric_needs_digit: "numeric s v \<Longrightarrow> \<exists>c \<in> set s. is_digit c"
proof -
  assume "numeric s v"
  then obtain pre sg b post where s: "s = pre @ sg @ b @ post" and lit: "literal_body b"
    by (auto simp: numeric_def)
  from literal_body_ends [OF lit] have "b \<noteq> []" "is_digit (hd b)" by simp_all
  then have "hd b \<in> set s" "is_digit (hd b)" using s by simp_all
  then show ?thesis by blast
qed

lemma numeric_only_literal_chars:
  assumes "numeric s v" "c \<in> set s"
  shows "is_digit c \<or> is_space c \<or> c = CHR ''_'' \<or> c = CHR ''+'' \<or> c = CHR ''-''"
proof -
  from assms(1) obtain pre sg b post where s: "s = pre @ sg @ b @ post"
    and sp: "\<forall>c \<in> set (pre @ post). is_space c"
    and sg: "sg = [] \<or> sg = ''+'' \<or> sg = ''-''"
    and lit: "literal_body b"
    by (auto simp: numeric_def)
  from lit obtain g gs where shape: "b = g @ concat (map ((#) CHR ''_'') gs)"
    and g: "\<forall>c \<in> set g. is_digit c"
    and gs: "\<forall>h \<in> set gs. h \<noteq> [] \<and> (\<forall>c \<in> set h. is_digit c)"
    by (auto simp: literal_body_def)
  have "\<forall>c \<in> set b. is_digit c \<or> c = CHR ''_''"
    using shape g gs by auto
  then show ?thesis using assms(2) s sp sg by auto
qed

lemma numeric_too_long:
  assumes "\<forall>c \<in> set s. is_digit c" "4300 < length s"
  shows "\<not> numeric s v"
proof
  assume "numeric s v"
  then obtain pre sg b post where s: "s = pre @ sg @ b @ post"
    and sp: "\<forall>c \<in> set (pre @ post). is_space c"
    and sg: "sg = [] \<or> sg = ''+'' \<or> sg = ''-''"
    and lim: "length (filter is_digit b) \<le> 4300"
    by (auto simp: numeric_def)
  have nosp: "\<forall>c \<in> set (pre @ post). \<not> is_space c"
    using s assms(1) digit_not_space by auto
  have pp: "pre @ post = []"
  proof (cases "pre @ post")
    case Nil
    then show ?thesis .
  next
    case (Cons x xs)
    then have "x \<in> set (pre @ post)" by simp
    then show ?thesis using sp nosp by blast
  qed
  have "sg = []"
  proof (rule ccontr)
    assume "sg \<noteq> []"
    then have "CHR ''+'' \<in> set s \<or> CHR ''-'' \<in> set s" using sg s by auto
    then show False using assms(1) digit_not_sign by blast
  qed
  with pp s have "s = b" by simp
  then have "filter is_digit b = s" using assms(1) by simp
  then show False using lim assms(2) by simp
qed

lemma int_of_str_ascii: "is_ascii s \<Longrightarrow> int_of_str s = int_of_ascii s"
  by (simp add: int_of_str_def ascii_form_def)

lemma not_numeric_gt10: "\<not> numeric (ascii_form ''>10'') v"
proof
  assume a: "numeric (ascii_form ''>10'') v"
  have "is_ascii ''>10''" by (simp add: is_ascii_def)
  then have "numeric ''>10'' v" using a by (simp add: ascii_form_ascii)
  from numeric_only_literal_chars [OF this, of "CHR ''>''"] show False
    by (simp add: is_digit_def is_space_def)
qed

lemma not_numeric_other_char:
  assumes "c \<in> set s" "\<not> (is_digit c \<or> is_space c \<or> c = CHR ''_'' \<or> c = CHR ''+'' \<or> c = CHR ''-'')"
  shows "\<not> numeric s v"
  using numeric_only_literal_chars [of s v c] assms by blast

lemma int_of_ascii_7: "int_of_ascii ''7'' = Inr 7"
  by (simp add: int_of_ascii_def strip_def is_space_def int_unsigned_def is_digit_def
      digit_val_def max_str_digits_def)


lemma int_of_str_5: "int_of_str ''5'' = Inr 5"
proof -
  have "int_of_ascii ''5'' = Inr 5"
    by (simp add: int_of_ascii_def strip_def is_space_def int_unsigned_def is_digit_def
        digit_val_def max_str_digits_def)
  then show ?thesis by (simp add: int_of_str_ascii is_ascii_def)
qed

lemma int_of_ascii_abc: "int_of_ascii ''abc'' = Inl ValueError"
  by (simp add: int_of_ascii_def strip_def is_space_def int_unsigned_def is_digit_def)

lemma int_of_ascii_12abc: "int_of_ascii ''12abc'' = Inl ValueError"
  by (simp add: int_of_ascii_def strip_def is_space_def int_unsigned_def is_digit_def
      digit_val_def max_str_digits_def)

lemma int_of_ascii_3_5: "int_of_ascii ''3.5'' = Inl ValueError"
  by (simp add: int_of_ascii_def strip_def is_space_def int_unsigned_def is_digit_def
      digit_val_def max_str_digits_def)

text \<open>
  C3. Quantity normalization of a matched feed record: the raw string \<open>>10\<close> gives 100, the
  string \<open>1\<close> gives 0, and any other string is read by \<open>int\<close>. A numeric string, that is
  a decimal literal (optional surrounding whitespace, an optional sign, groups of digits
  separated by single underscores, at most 4300 digits), gives the integer it denotes:
  \<open>7\<close> gives 7, and a string of digits gives its decimal value. Every other string raises
  \<open>ValueError\<close> (the parse error of the specification): \<open>abc\<close>, \<open>12abc\<close> and \<open>3.5\<close>,
  every ASCII string with a character that cannot stand in a literal or without a digit,
  and a string of more than 4300 digits. A string with characters outside ASCII is
  judged by its ASCII form. The value computed is the one \<open>create_stocks\<close> of either
  marketplace puts into the stock record of the matched row, and a failure of the
  normalization is the failure of \<open>create_stocks\<close>.
\<close>

theorem quantity_normalization:
  "normalize_count (w\<lparr>kolichestvo := PStr ''>10''\<rparr>) = Inr 100
   \<and> normalize_count (w\<lparr>kolichestvo := PStr ''1''\<rparr>) = Inr 0
   \<and> normalize_count (w\<lparr>kolichestvo := PStr ''7''\<rparr>) = Inr 7
   \<and> normalize_count (w\<lparr>kolichestvo := PStr ''abc''\<rparr>) = Inl ValueError
   \<and> normalize_count (w\<lparr>kolichestvo := PStr ''12abc''\<rparr>) = Inl ValueError
   \<and> normalize_count (w\<lparr>kolichestvo := PStr ''3.5''\<rparr>) = Inl ValueError
   \<and> (s \<noteq> ''>10'' \<and> s \<noteq> ''1'' \<longrightarrow> normalize_count (w\<lparr>kolichestvo := PStr s\<rparr>) = int_of_str s)
   \<and> (s \<noteq> ''1'' \<and> numeric (ascii_form s) v \<longrightarrow>
        normalize_count (w\<lparr>kolichestvo := PStr s\<rparr>) = Inr v)
   \<and> (s \<noteq> ''>10'' \<and> (\<forall>v. \<not> numeric (ascii_form s) v) \<longrightarrow>
        normalize_count (w\<lparr>kolichestvo := PStr s\<rparr>) = Inl ValueError)
   \<and> (is_ascii s \<longrightarrow> ascii_form s = s)
   \<and> (s \<noteq> [] \<and> (\<forall>c \<in> set s. is_digit c) \<and> length s \<le> 4300 \<and> s \<noteq> ''1'' \<longrightarrow>
        normalize_count (w\<lparr>kolichestvo := PStr s\<rparr>) = Inr (int (decimal_value s)))
   \<and> ((\<forall>c \<in> set s. is_digit c) \<and> 4300 < length s \<longrightarrow>
        normalize_count (w\<lparr>kolichestvo := PStr s\<rparr>) = Inl ValueError)
   \<and> (is_ascii s \<and> s \<noteq> ''>10''
        \<and> (\<exists>c \<in> set s. \<not> (is_digit c \<or> is_space c \<or> c = CHR ''_'' \<or> c = CHR ''+'' \<or> c = CHR ''-'')) \<longrightarrow>
        normalize_count (w\<lparr>kolichestvo := PStr s\<rparr>) = Inl ValueError)
   \<and> (is_ascii s \<and> (\<forall>c \<in> set s. \<not> is_digit c) \<longrightarrow>
        normalize_count (w\<lparr>kolichestvo := PStr s\<rparr>) = Inl ValueError)
   \<and> (py_str (kod w) \<in> set offer_ids \<longrightarrow>
        seller_create_stocks [w] offer_ids =
          (case normalize_count w of
             Inl e \<Rightarrow> Inl e
           | Inr st \<Rightarrow> Inr (\<lparr>offer_id = py_str (kod w), stock = st\<rparr>
                 # map (\<lambda>i. \<lparr>offer_id = i, stock = 0\<rparr>) (remove1 (py_str (kod w)) offer_ids),
               remove1 (py_str (kod w)) offer_ids))
        \<and> market_create_stocks date [w] offer_ids wh =
          (case normalize_count w of
             Inl e \<Rightarrow> Inl e
           | Inr st \<Rightarrow> Inr (market_stock_entry date wh (py_str (kod w)) st
                 # map (\<lambda>i. market_stock_entry date wh i 0) (remove1 (py_str (kod w)) offer_ids),
               remove1 (py_str (kod w)) offer_ids)))"
proof -
  let ?n = "\<lambda>s. normalize_count (w\<lparr>kolichestvo := PStr s\<rparr>)"
  have other: "?n t = int_of_str t" if "t \<noteq> ''>10''" "t \<noteq> ''1''" for t
    using that by (simp add: normalize_count_def)
  have a: "?n ''>10'' = Inr 100"
    by (simp add: normalize_count_def)
  have b: "?n ''1'' = Inr 0"
    by (simp add: normalize_count_def)
  have c: "?n ''7'' = Inr 7"
    by (simp add: other int_of_str_ascii is_ascii_def int_of_ascii_7)
  have d: "?n ''abc'' = Inl ValueError"
    by (simp add: other int_of_str_ascii is_ascii_def int_of_ascii_abc)
  have d2: "?n ''12abc'' = Inl ValueError"
    by (simp add: other int_of_str_ascii is_ascii_def int_of_ascii_12abc)
  have d3: "?n ''3.5'' = Inl ValueError"
    by (simp add: other int_of_str_ascii is_ascii_def int_of_ascii_3_5)
  have e: "s \<noteq> ''>10'' \<and> s \<noteq> ''1'' \<longrightarrow> ?n s = int_of_str s"
    using other by blast
  have f: "s \<noteq> ''1'' \<and> numeric (ascii_form s) v \<longrightarrow> ?n s = Inr v"
  proof (intro impI, elim conjE)
    assume s: "s \<noteq> ''1''" and n: "numeric (ascii_form s) v"
    have "s \<noteq> ''>10''" using n not_numeric_gt10 by blast
    then show "?n s = Inr v" using other s int_of_str_numeric [OF n] by simp
  qed
  have g: "s \<noteq> ''>10'' \<and> (\<forall>v. \<not> numeric (ascii_form s) v) \<longrightarrow> ?n s = Inl ValueError"
  proof (intro impI, elim conjE)
    assume s: "s \<noteq> ''>10''" and n: "\<forall>v. \<not> numeric (ascii_form s) v"
    have one: "numeric (ascii_form ''1'') 1"
      using numeric_digits [of "''1''"]
      by (simp add: ascii_form_ascii is_ascii_def is_digit_def decimal_value_def digit_val_def)
    have "s \<noteq> ''1''" using n one by blast
    then show "?n s = Inl ValueError" using other s int_of_str_not_numeric [OF n] by simp
  qed
  have h: "is_ascii s \<longrightarrow> ascii_form s = s"
    by (simp add: ascii_form_ascii)
  have i: "s \<noteq> [] \<and> (\<forall>c \<in> set s. is_digit c) \<and> length s \<le> 4300 \<and> s \<noteq> ''1'' \<longrightarrow>
        ?n s = Inr (int (decimal_value s))"
  proof (intro impI, elim conjE)
    assume s: "s \<noteq> []" "\<forall>c \<in> set s. is_digit c" "length s \<le> 4300" "s \<noteq> ''1''"
    have "numeric (ascii_form s) (int (decimal_value s))"
      using numeric_digits [OF s(1,2,3)] digits_ascii [OF s(2)] by (simp add: ascii_form_ascii)
    then show "?n s = Inr (int (decimal_value s))"
      using s(4) not_numeric_gt10 other int_of_str_numeric by metis
  qed
  have one_digit: "is_digit CHR ''1''" by (simp add: is_digit_def)
  have j: "(\<forall>c \<in> set s. is_digit c) \<and> 4300 < length s \<longrightarrow> ?n s = Inl ValueError"
  proof (intro impI, elim conjE)
    assume s: "\<forall>c \<in> set s. is_digit c" "4300 < length s"
    have n: "\<forall>v. \<not> numeric (ascii_form s) v"
      using numeric_too_long [OF s] digits_ascii [OF s(1)] by (simp add: ascii_form_ascii)
    have "s \<noteq> ''>10''" "s \<noteq> ''1''" using s(2) by auto
    then show "?n s = Inl ValueError" using other int_of_str_not_numeric [OF n] by simp
  qed
  have k: "is_ascii s \<and> s \<noteq> ''>10''
        \<and> (\<exists>c \<in> set s. \<not> (is_digit c \<or> is_space c \<or> c = CHR ''_'' \<or> c = CHR ''+'' \<or> c = CHR ''-'')) \<longrightarrow>
        ?n s = Inl ValueError"
  proof (intro impI, elim conjE bexE)
    fix c assume s: "is_ascii s" "s \<noteq> ''>10''" and c: "c \<in> set s"
      "\<not> (is_digit c \<or> is_space c \<or> c = CHR ''_'' \<or> c = CHR ''+'' \<or> c = CHR ''-'')"
    have n: "\<forall>v. \<not> numeric (ascii_form s) v"
      using not_numeric_other_char [OF c] s(1) by (simp add: ascii_form_ascii)
    have "s \<noteq> ''1''" using c one_digit by auto
    then show "?n s = Inl ValueError" using other s(2) int_of_str_not_numeric [OF n] by simp
  qed
  have l: "is_ascii s \<and> (\<forall>c \<in> set s. \<not> is_digit c) \<longrightarrow> ?n s = Inl ValueError"
  proof (intro impI, elim conjE)
    assume s: "is_ascii s" "\<forall>c \<in> set s. \<not> is_digit c"
    have n: "\<forall>v. \<not> numeric (ascii_form s) v"
      using numeric_needs_digit s by (auto simp: ascii_form_ascii)
    have "s \<noteq> ''>10''" "s \<noteq> ''1''" using s(2) one_digit by auto
    then show "?n s = Inl ValueError" using other int_of_str_not_numeric [OF n] by simp
  qed
  have m: "py_str (kod w) \<in> set offer_ids \<longrightarrow>
        seller_create_stocks [w] offer_ids =
          (case normalize_count w of
             Inl e \<Rightarrow> Inl e
           | Inr st \<Rightarrow> Inr (\<lparr>offer_id = py_str (kod w), stock = st\<rparr>
                 # map (\<lambda>i. \<lparr>offer_id = i, stock = 0\<rparr>) (remove1 (py_str (kod w)) offer_ids),
               remove1 (py_str (kod w)) offer_ids))
        \<and> market_create_stocks date [w] offer_ids wh =
          (case normalize_count w of
             Inl e \<Rightarrow> Inl e
           | Inr st \<Rightarrow> Inr (market_stock_entry date wh (py_str (kod w)) st
                 # map (\<lambda>i. market_stock_entry date wh i 0) (remove1 (py_str (kod w)) offer_ids),
               remove1 (py_str (kod w)) offer_ids))"
    by (simp add: seller_create_stocks_def market_create_stocks_def split: sum.splits)
  from a b c d d2 d3 e f g h i j k l m show ?thesis by (intro conjI)
qed

theorem quantity_normalization_witness:
  "normalize_count \<lparr>kod = PStr ''A1'', kolichestvo = PStr ''42'', tsena = PStr ''5.00''\<rparr> = Inr 42
   \<and> normalize_count \<lparr>kod = PStr ''A1'', kolichestvo = PStr ''n/a'', tsena = PStr ''5.00''\<rparr> = Inl ValueError
   \<and> seller_create_stocks [\<lparr>kod = PStr ''A1'', kolichestvo = PStr ''>10'', tsena = PStr ''5.00''\<rparr>] [''A1'', ''A2'']
       = Inr ([\<lparr>offer_id = ''A1'', stock = 100\<rparr>, \<lparr>offer_id = ''A2'', stock = 0\<rparr>], [''A2''])"
proof -
  let ?w = "\<lparr>kod = PStr ''A1'', kolichestvo = PStr ''>10'', tsena = PStr ''5.00''\<rparr>"
  note inst1 = quantity_normalization [where w = ?w and s = "''42''" and v = 0
      and offer_ids = "[]" and date = "[]" and wh = "[]"]
  note inst2 = quantity_normalization [where w = ?w and s = "''n/a''" and v = 0
      and offer_ids = "[''A1'', ''A2'']" and date = "[]" and wh = "[]"]
  have da: "''42'' \<noteq> [] \<and> (\<forall>c \<in> set ''42''. is_digit c) \<and> length ''42'' \<le> 4300 \<and> ''42'' \<noteq> ''1''"
    by (simp add: is_digit_def)
  have a: "normalize_count (?w\<lparr>kolichestvo := PStr ''42''\<rparr>) = Inr (int (decimal_value ''42''))"
    using inst1 da by blast
  have db: "is_ascii ''n/a'' \<and> ''n/a'' \<noteq> ''>10''
      \<and> (\<exists>c \<in> set ''n/a''. \<not> (is_digit c \<or> is_space c \<or> c = CHR ''_'' \<or> c = CHR ''+'' \<or> c = CHR ''-''))"
    by (simp add: is_ascii_def is_digit_def is_space_def)
  have b: "normalize_count (?w\<lparr>kolichestvo := PStr ''n/a''\<rparr>) = Inl ValueError"
    using inst2 db by blast
  have m: "py_str (kod ?w) \<in> set [''A1'', ''A2'']" by simp
  have c: "seller_create_stocks [?w] [''A1'', ''A2''] =
      Inr ([\<lparr>offer_id = ''A1'', stock = 100\<rparr>, \<lparr>offer_id = ''A2'', stock = 0\<rparr>], [''A2''])"
    using inst2 m by (simp add: normalize_count_def del: One_nat_def)
  show ?thesis
    using a b c by (simp add: decimal_value_def digit_val_def)
qed


section \<open>Price normalization\<close>

lemma split_on_first:
  "\<exists>ps. split_on sep s = takeWhile (\<lambda>c. c \<noteq> sep) s # ps"
  by (induction s) (auto split: list.splits)

lemma price_conversion_str:
  "price_conversion (PStr s) = Inr (filter is_digit (takeWhile (\<lambda>c. c \<noteq> CHR ''.'') s))"
proof -
  obtain ps where "split_on CHR ''.'' s = takeWhile (\<lambda>c. c \<noteq> CHR ''.'') s # ps"
    using split_on_first by blast
  then show ?thesis by (simp add: price_conversion_def)
qed

lemma int_of_str_empty: "int_of_str [] = Inl ValueError"
  by (simp add: int_of_str_def ascii_form_def is_ascii_def int_of_ascii_def strip_def)

text \<open>
  C4 (amended). \<open>price_conversion\<close> keeps exactly the ASCII digits of the part of the price
  string before its first \<open>.\<close>; the docstring example gives \<open>5990\<close> and \<open>1234\<close> stays
  \<open>1234\<close>. When no digit stands before the \<open>.\<close> the function does not fail: it returns the
  empty string. \<open>create_prices\<close> of seller.py then emits a price record whose price is the
  empty string, and \<open>create_prices\<close> of market.py raises \<open>ValueError\<close>, because it applies
  \<open>int\<close> to that empty string.
\<close>

theorem price_normalization:
  "price_conversion (PStr s) = Inr (filter is_digit (takeWhile (\<lambda>c. c \<noteq> CHR ''.'') s))
   \<and> price_conversion (PStr (''5'990.00 '' @ rub @ ''.'')) = Inr ''5990''
   \<and> price_conversion (PStr ''1234'') = Inr ''1234''
   \<and> (filter is_digit (takeWhile (\<lambda>c. c \<noteq> CHR ''.'') s) = [] \<longrightarrow>
        price_conversion (PStr s) = Inr []
        \<and> seller_create_prices [w\<lparr>tsena := PStr s\<rparr>] [py_str (kod w)]
            = Inr [seller_price_entry (py_str (kod w)) []]
        \<and> market_create_prices [w\<lparr>tsena := PStr s\<rparr>] [py_str (kod w)] = Inl ValueError)"
proof -
  have a: "price_conversion (PStr (''5'990.00 '' @ rub @ ''.'')) = Inr ''5990''"
    by (simp add: price_conversion_str is_digit_def rub_def)
  have b: "price_conversion (PStr ''1234'') = Inr ''1234''"
    by (simp add: price_conversion_str is_digit_def)
  have c: "filter is_digit (takeWhile (\<lambda>c. c \<noteq> CHR ''.'') s) = [] \<longrightarrow>
        price_conversion (PStr s) = Inr []
        \<and> seller_create_prices [w\<lparr>tsena := PStr s\<rparr>] [py_str (kod w)]
            = Inr [seller_price_entry (py_str (kod w)) []]
        \<and> market_create_prices [w\<lparr>tsena := PStr s\<rparr>] [py_str (kod w)] = Inl ValueError"
    by (simp add: price_conversion_str seller_create_prices_def market_create_prices_def
        seller_price_entry_def int_of_str_empty)
  show ?thesis
    using price_conversion_str [of s] a b c by blast
qed

theorem price_normalization_witness:
  "price_conversion (PStr ''abc.50'') = Inr []
   \<and> seller_create_prices [\<lparr>kod = PStr ''A1'', kolichestvo = PStr ''2'', tsena = PStr ''abc.50''\<rparr>] [''A1'']
        = Inr [seller_price_entry ''A1'' []]
   \<and> market_create_prices [\<lparr>kod = PStr ''A1'', kolichestvo = PStr ''2'', tsena = PStr ''abc.50''\<rparr>] [''A1'']
        = Inl ValueError"
  using price_normalization [of "''abc.50''" "\<lparr>kod = PStr ''A1'', kolichestvo = PStr ''2'', tsena = PStr ''abc.50''\<rparr>"]
  by (simp add: is_digit_def)

text \<open>
  The claim as written fails: for the price \<open>abc.50\<close> the digit string is empty, yet
  \<open>price_conversion\<close> returns normally and seller.py builds a price record from it.
\<close>

theorem price_empty_digits_counterexample:
  "price_conversion (PStr ''abc.50'') = Inr []
   \<and> seller_create_prices [\<lparr>kod = PStr ''A1'', kolichestvo = PStr ''2'', tsena = PStr ''abc.50''\<rparr>] [''A1'']
        = Inr [\<lparr>auto_action_enabled = ''UNKNOWN'', currency_code = ''RUB'',
                 price_offer_id = ''A1'', old_price = ''0'', price = []\<rparr>]"
  by (simp add: price_conversion_def seller_create_prices_def is_digit_def)


section \<open>Reconciliation\<close>




lemma match_stocks_rest:
  "distinct ids \<Longrightarrow> seller_match_stocks ws stocks ids = Inr (out, rest) \<Longrightarrow>
     rest = filter (\<lambda>c. c \<notin> set (codes ws)) ids"
proof (induction ws arbitrary: stocks ids)
  case Nil
  then show ?case by (simp add: codes_def)
next
  case (Cons w ws)
  let ?c = "py_str (kod w)"
  show ?case
  proof (cases "?c \<in> set ids")
    case False
    with Cons.prems have "seller_match_stocks ws stocks ids = Inr (out, rest)" by simp
    from Cons.IH [OF Cons.prems(1) this] have "rest = filter (\<lambda>c. c \<notin> set (codes ws)) ids" .
    also have "\<dots> = filter (\<lambda>c. c \<notin> set (codes (w # ws))) ids"
      using False by (intro filter_cong) (auto simp: codes_def)
    finally show ?thesis .
  next
    case True
    with Cons.prems obtain st where
      rec: "seller_match_stocks ws (stocks @ [\<lparr>offer_id = ?c, stock = st\<rparr>]) (remove1 ?c ids) = Inr (out, rest)"
      by (auto split: sum.splits)
    have d: "distinct (remove1 ?c ids)" using Cons.prems(1) by simp
    have r: "remove1 ?c ids = filter (\<lambda>x. x \<noteq> ?c) ids"
      using Cons.prems(1) by (simp add: distinct_remove1_removeAll removeAll_filter_not_eq) metis
    from Cons.IH [OF d rec] have "rest = filter (\<lambda>c. c \<notin> set (codes ws)) (remove1 ?c ids)" .
    also have "\<dots> = filter (\<lambda>c. c \<notin> set (codes (w # ws))) ids"
      unfolding r by (simp add: codes_def)
    finally show ?thesis .
  qed
qed



lemma market_match_stocks_eq:
  "market_match_stocks date wh ws (map (to_market date wh) stocks) ids =
     map_sum id (map_prod (map (to_market date wh)) id) (seller_match_stocks ws stocks ids)"
proof (induction ws arbitrary: stocks ids)
  case Nil
  then show ?case by simp
next
  case (Cons w ws)
  show ?case
  proof (cases "py_str (kod w) \<in> set ids")
    case False
    then show ?thesis using Cons.IH by simp
  next
    case True
    show ?thesis
    proof (cases "normalize_count w")
      case (Inl e)
      then show ?thesis using True by simp
    next
      case (Inr st)
      have "map (to_market date wh) stocks @ [market_stock_entry date wh (py_str (kod w)) st]
          = map (to_market date wh) (stocks @ [\<lparr>offer_id = py_str (kod w), stock = st\<rparr>])"
        by (simp add: to_market_def)
      then show ?thesis
        using True Inr Cons.IH [of "stocks @ [\<lparr>offer_id = py_str (kod w), stock = st\<rparr>]" "remove1 (py_str (kod w)) ids"]
        by simp
    qed
  qed
qed

lemma market_create_stocks_eq:
  "market_create_stocks date ws ids wh =
     map_sum id (map_prod (map (to_market date wh)) id) (seller_create_stocks ws ids)"
proof -
  have "market_match_stocks date wh ws [] ids =
     map_sum id (map_prod (map (to_market date wh)) id) (seller_match_stocks ws [] ids)"
    using market_match_stocks_eq [of date wh ws "[]" ids] by simp
  then show ?thesis
    by (cases "seller_match_stocks ws [] ids")
      (auto simp: market_create_stocks_def seller_create_stocks_def to_market_def)
qed


section \<open>Push loops\<close>

lemma push_sent:
  "c \<in> set (fst (push update tag chunks)) \<Longrightarrow> \<exists>chunk \<in> set chunks. c = tag chunk"
proof (induction chunks)
  case Nil
  then show ?case by simp
next
  case (Cons some others)
  show ?case
  proof (cases "update some")
    case (Some e)
    with Cons.prems show ?thesis by simp
  next
    case None
    with Cons.prems have "c = tag some \<or> c \<in> set (fst (push update tag others))"
      by (auto split: prod.splits)
    then show ?thesis using Cons.IH by auto
  qed
qed

lemma push_chunks_sent:
  assumes "0 < n" "c \<in> set (fst (push_chunks update tag updates n))"
  shows "\<exists>chunk. c = tag chunk \<and> 1 \<le> length chunk \<and> length chunk \<le> nat n"
proof -
  from assms have "c \<in> set (fst (push update tag (chunks_at updates n 0)))"
    by (simp add: push_chunks_def divide_lst_pos)
  then obtain chunk where "chunk \<in> set (chunks_at updates n 0)" "c = tag chunk"
    using push_sent [of c update tag "chunks_at updates n 0"] by auto
  then show ?thesis
    using chunk_sizes_at [OF assms(1), of chunk updates 0] by blast
qed

lemma push_chunks_empty: "0 < n \<Longrightarrow> push_chunks update tag [] n = ([], None)"
  by (simp add: push_chunks_def divide_lst_pos) (simp add: chunks_at_step)

lemma prices_loop_disjoint:
  "set ids \<inter> set (codes ws) = {} \<Longrightarrow> seller_prices_loop ws prices ids = Inr prices"
  by (induction ws) (auto simp: codes_def)


section \<open>The rows that are matched\<close>

lemma count_list_remove1:
  "c \<in> set xs \<Longrightarrow>
     count_list (remove1 c xs) d = (if d = c then count_list xs c - 1 else count_list xs d)"
  by (induction xs) auto

lemma in_set_count: "c \<in> set xs \<longleftrightarrow> 0 < count_list xs c"
  using count_list_0_iff [of xs c] by auto





lemma match_rows:
  assumes "\<forall>c. count_list cur c = count_list ids c - count_list seen c"
    and "seller_match_stocks ws stocks cur = Inr (out, rest)"
  shows "\<exists>new. out = stocks @ new
     \<and> map Inr new = map stock_record (matched_rows seen ids ws)
     \<and> rest = fold remove1 (codes (matched_rows seen ids ws)) cur"
  using assms
proof (induction ws arbitrary: seen cur stocks)
  case Nil
  then show ?case by (simp add: codes_def)
next
  case (Cons w ws)
  let ?c = "py_str (kod w)"
  have iff: "?c \<in> set cur \<longleftrightarrow> count_list seen ?c < count_list ids ?c"
    using Cons.prems(1) in_set_count [of ?c cur] by auto
  show ?case
  proof (cases "?c \<in> set cur")
    case False
    have inv: "\<forall>c. count_list cur c = count_list ids c - count_list (seen @ [?c]) c"
    proof
      fix c
      show "count_list cur c = count_list ids c - count_list (seen @ [?c]) c"
      proof (cases "c = ?c")
        case True
        have "count_list cur ?c = 0" using False by (simp add: count_list_0_iff)
        moreover have "count_list ids ?c - count_list seen ?c = 0"
          using Cons.prems(1) calculation by simp
        ultimately show ?thesis using True by simp
      next
        case False
        then show ?thesis using Cons.prems(1) by simp
      qed
    qed
    from Cons.prems(2) False have "seller_match_stocks ws stocks cur = Inr (out, rest)" by simp
    from Cons.IH [OF inv this] obtain new where "out = stocks @ new"
      "map Inr new = map stock_record (matched_rows (seen @ [?c]) ids ws)"
      "rest = fold remove1 (codes (matched_rows (seen @ [?c]) ids ws)) cur" by blast
    then show ?thesis
      using False iff by (intro exI [of _ new]) simp
  next
    case True
    with Cons.prems(2) obtain st where st: "normalize_count w = Inr st"
      and rec: "seller_match_stocks ws (stocks @ [\<lparr>offer_id = ?c, stock = st\<rparr>]) (remove1 ?c cur) = Inr (out, rest)"
      by (auto split: sum.splits)
    have inv: "\<forall>c. count_list (remove1 ?c cur) c = count_list ids c - count_list (seen @ [?c]) c"
      using Cons.prems(1) by (simp add: count_list_remove1 [OF True])
    from Cons.IH [OF inv rec] obtain new where new:
      "out = (stocks @ [\<lparr>offer_id = ?c, stock = st\<rparr>]) @ new"
      "map Inr new = map stock_record (matched_rows (seen @ [?c]) ids ws)"
      "rest = fold remove1 (codes (matched_rows (seen @ [?c]) ids ws)) (remove1 ?c cur)" by blast
    have rows: "matched_rows seen ids (w # ws) = w # matched_rows (seen @ [?c]) ids ws"
      using True iff by simp
    show ?thesis
      using new st unfolding rows
      by (intro exI [of _ "\<lparr>offer_id = ?c, stock = st\<rparr> # new"]) (simp add: stock_record_def codes_def)
  qed
qed

lemma create_stocks_rows:
  assumes "seller_create_stocks feed ids = Inr (out, rest)"
  shows "\<exists>matched. seller_match_stocks feed [] ids = Inr (matched, rest)
     \<and> out = matched @ map (\<lambda>i. \<lparr>offer_id = i, stock = 0\<rparr>) rest
     \<and> map Inr matched = map stock_record (matched_rows [] ids feed)
     \<and> rest = fold remove1 (codes (matched_rows [] ids feed)) ids"
proof -
  from assms obtain matched where
    m: "seller_match_stocks feed [] ids = Inr (matched, rest)"
    and out: "out = matched @ map (\<lambda>i. \<lparr>offer_id = i, stock = 0\<rparr>) rest"
    by (auto simp: seller_create_stocks_def split: sum.splits)
  have inv: "\<forall>c. count_list ids c = count_list ids c - count_list [] c" by simp
  from match_rows [OF inv m] m out show ?thesis by auto
qed

lemma prices_rows:
  "seller_prices_loop ws prices ids = Inr out \<Longrightarrow>
     \<exists>new. out = prices @ new
       \<and> map Inr new = map price_record (filter (\<lambda>w. py_str (kod w) \<in> set ids) ws)"
proof (induction ws arbitrary: prices)
  case Nil
  then show ?case by simp
next
  case (Cons w ws)
  let ?c = "py_str (kod w)"
  show ?case
  proof (cases "?c \<in> set ids")
    case False
    with Cons.prems have "seller_prices_loop ws prices ids = Inr out" by simp
    from Cons.IH [OF this] show ?thesis using False by simp
  next
    case True
    with Cons.prems obtain p where p: "price_conversion (tsena w) = Inr p"
      and rec: "seller_prices_loop ws (prices @ [seller_price_entry ?c p]) ids = Inr out"
      by (auto simp: seller_price_entry_def split: sum.splits)
    from Cons.IH [OF rec] obtain new where
      "out = (prices @ [seller_price_entry ?c p]) @ new"
      "map Inr new = map price_record (filter (\<lambda>w. py_str (kod w) \<in> set ids) ws)" by blast
    then show ?thesis
      using True p by (intro exI [of _ "seller_price_entry ?c p # new"]) (simp add: price_record_def)
  qed
qed

lemma market_prices_rows:
  "market_prices_loop ws prices ids = Inr out \<Longrightarrow>
     \<exists>new. out = prices @ new
       \<and> map Inr new = map market_price_record (filter (\<lambda>w. py_str (kod w) \<in> set ids) ws)"
proof (induction ws arbitrary: prices)
  case Nil
  then show ?case by simp
next
  case (Cons w ws)
  let ?c = "py_str (kod w)"
  show ?case
  proof (cases "?c \<in> set ids")
    case False
    with Cons.prems have "market_prices_loop ws prices ids = Inr out" by simp
    from Cons.IH [OF this] show ?thesis using False by simp
  next
    case True
    with Cons.prems obtain p v where p: "price_conversion (tsena w) = Inr p" and v: "int_of_str p = Inr v"
      and rec: "market_prices_loop ws (prices @ [\<lparr>price_id = ?c,
            market_price = \<lparr>price_value = v, currencyId = ''RUR''\<rparr>\<rparr>]) ids = Inr out"
      by (auto split: sum.splits)
    let ?e = "\<lparr>price_id = ?c, market_price = \<lparr>price_value = v, currencyId = ''RUR''\<rparr>\<rparr>"
    from Cons.IH [OF rec] obtain new where
      "out = (prices @ [?e]) @ new"
      "map Inr new = map market_price_record (filter (\<lambda>w. py_str (kod w) \<in> set ids) ws)" by blast
    then show ?thesis
      using True p v by (intro exI [of _ "?e # new"]) (simp add: market_price_record_def)
  qed
qed

lemma seller_prices_closed:
  assumes "seller_create_prices feed ids = Inr prices"
  shows "map Inr prices = map price_record (filter (\<lambda>w. py_str (kod w) \<in> set ids) feed)"
  using prices_rows [of feed "[]" ids prices] assms by (auto simp: seller_create_prices_def)

lemma market_prices_closed:
  assumes "market_create_prices feed ids = Inr prices"
  shows "map Inr prices = map market_price_record (filter (\<lambda>w. py_str (kod w) \<in> set ids) feed)"
  using market_prices_rows [of feed "[]" ids prices] assms by (auto simp: market_create_prices_def)

lemma market_record_of_seller:
  "map_sum id (to_market date wh) (stock_record w) = market_stock_record date wh w"
  by (cases "normalize_count w") (simp_all add: stock_record_def market_stock_record_def to_market_def)

lemma market_rows_of_seller:
  assumes "map Inr matched = map stock_record rows"
  shows "map Inr (map (to_market date wh) matched) = map (market_stock_record date wh) rows"
proof -
  have "map Inr (map (to_market date wh) matched)
      = map (map_sum id (to_market date wh)) (map Inr matched)"
    by simp
  also have "\<dots> = map (map_sum id (to_market date wh)) (map stock_record rows)"
    by (simp only: assms)
  also have "\<dots> = map (market_stock_record date wh) rows"
    by (simp add: market_record_of_seller)
  finally show ?thesis .
qed



lemma create_stocks_parts:
  assumes "seller_create_stocks feed ids = Inr (out, rest)"
  shows "\<exists>matched. seller_match_stocks feed [] ids = Inr (matched, rest)
     \<and> out = matched @ map (\<lambda>i. \<lparr>offer_id = i, stock = 0\<rparr>) rest"
  using assms by (auto simp: seller_create_stocks_def split: sum.splits)






lemma market_stocks_from_seller:
  assumes "market_create_stocks date feed ids wh = Inr (out, rest)"
  shows "\<exists>sout. seller_create_stocks feed ids = Inr (sout, rest) \<and> out = map (to_market date wh) sout"
  using assms unfolding market_create_stocks_eq
  by (cases "seller_create_stocks feed ids") auto














lemma seller_main_after_stocks:
  assumes "seller_create_stocks feed ids = Inr (out, rest)"
    and "seller_create_prices feed rest = Inr []"
  shows "seller_main (Inr ids) (Inr feed) update_stocks update_price
     = push_chunks update_stocks UpdateStocks out 100"
proof -
  obtain sent r where
    pc: "push_chunks update_stocks (UpdateStocks :: _ \<Rightarrow> (seller_stock, seller_price) call) out 100 = (sent, r)"
    by fastforce
  have e: "push_chunks update_price (UpdatePrice :: _ \<Rightarrow> (seller_stock, seller_price) call) [] 900 = ([], None)"
    by (rule push_chunks_empty) simp
  show ?thesis
    by (cases r) (simp_all add: seller_main_def assms pc e)
qed

text \<open>
  C9 (amended). \<open>create_stocks\<close> of seller.py changes the list it is given. For a catalog
  that lists no offer id twice, the list left behind holds exactly the catalog ids that no
  feed row carries, in catalog order. \<open>main\<close> of seller.py passes this same list on to
  \<open>create_prices\<close>, which therefore builds no price record at all, so no price record for
  any code matched during the stock computation, and \<open>main\<close> calls the price endpoint not
  once: every call it makes is a stock update.
\<close>

theorem stocks_consume_offer_ids:
  assumes "distinct ids" and "seller_create_stocks feed ids = Inr (out, rest)"
  shows "rest = filter (\<lambda>c. c \<notin> set (codes feed)) ids
     \<and> seller_create_prices feed rest = Inr []
     \<and> (\<forall>call \<in> set (fst (seller_main (Inr ids) (Inr feed) update_stocks update_price)).
           \<exists>chunk. call = UpdateStocks chunk)"
proof -
  from create_stocks_parts [OF assms(2)] obtain matched where
    m: "seller_match_stocks feed [] ids = Inr (matched, rest)" by blast
  have r: "rest = filter (\<lambda>c. c \<notin> set (codes feed)) ids"
    by (rule match_stocks_rest [OF assms(1) m])
  then have "set rest \<inter> set (codes feed) = {}" by auto
  then have p: "seller_create_prices feed rest = Inr []"
    by (simp add: seller_create_prices_def prices_loop_disjoint)
  have "\<exists>chunk. call = UpdateStocks chunk"
    if "call \<in> set (fst (seller_main (Inr ids) (Inr feed) update_stocks update_price))" for call
  proof -
    from that have "call \<in> set (fst (push_chunks update_stocks UpdateStocks out 100))"
      by (simp add: seller_main_after_stocks [OF assms(2) p])
    then show ?thesis
      using push_chunks_sent [of 100 call update_stocks UpdateStocks out] by auto
  qed
  with r p show ?thesis by blast
qed

theorem stocks_consume_offer_ids_witness:
  "distinct catalog_example
   \<and> seller_create_stocks feed_example catalog_example
     = Inr ([\<lparr>offer_id = ''A1'', stock = 100\<rparr>, \<lparr>offer_id = ''A2'', stock = 0\<rparr>,
             \<lparr>offer_id = ''A3'', stock = 0\<rparr>], [''A3''])
   \<and> seller_create_prices feed_example [''A3''] = Inr []"
proof -
  let ?out = "[\<lparr>offer_id = ''A1'', stock = 100\<rparr>, \<lparr>offer_id = ''A2'', stock = 0\<rparr>,
             \<lparr>offer_id = ''A3'', stock = 0\<rparr>]"
  have d: "distinct catalog_example"
    by (simp add: catalog_example_def)
  have ev: "seller_create_stocks feed_example catalog_example = Inr (?out, [''A3''])"
    by (simp add: seller_create_stocks_def feed_example_def catalog_example_def normalize_count_def)
  note p = stocks_consume_offer_ids [OF d ev, of "\<lambda>_. None" "\<lambda>_. None", THEN conjunct2, THEN conjunct1]
  from d ev p show ?thesis by (intro conjI)
qed

text \<open>
  The claim as written fails for a catalog that lists an offer id twice: only one of the
  two entries is removed by the matching feed row, so the list left behind still holds the
  matched code and \<open>main\<close> sends a price record for it.
\<close>

theorem repeated_catalog_id_counterexample:
  "seller_create_stocks feed_single [''A1'', ''A1'']
     = Inr ([\<lparr>offer_id = ''A1'', stock = 5\<rparr>, \<lparr>offer_id = ''A1'', stock = 0\<rparr>], [''A1''])
   \<and> seller_main (Inr [''A1'', ''A1'']) (Inr feed_single) accepts_all accepts_all
     = ([UpdateStocks [\<lparr>offer_id = ''A1'', stock = 5\<rparr>, \<lparr>offer_id = ''A1'', stock = 0\<rparr>],
         UpdatePrice [\<lparr>auto_action_enabled = ''UNKNOWN'', currency_code = ''RUB'',
                        price_offer_id = ''A1'', old_price = ''0'', price = ''10''\<rparr>]],
        None)"
proof -
  have s: "seller_create_stocks feed_single [''A1'', ''A1'']
     = Inr ([\<lparr>offer_id = ''A1'', stock = 5\<rparr>, \<lparr>offer_id = ''A1'', stock = 0\<rparr>], [''A1''])"
    by (simp add: seller_create_stocks_def feed_single_def normalize_count_def int_of_str_5)
  have p: "seller_create_prices feed_single [''A1'']
     = Inr [\<lparr>auto_action_enabled = ''UNKNOWN'', currency_code = ''RUB'',
              price_offer_id = ''A1'', old_price = ''0'', price = ''10''\<rparr>]"
    by (simp add: seller_create_prices_def feed_single_def price_conversion_def is_digit_def)
  have m: "seller_main (Inr [''A1'', ''A1'']) (Inr feed_single) accepts_all accepts_all
     = ([UpdateStocks [\<lparr>offer_id = ''A1'', stock = 5\<rparr>, \<lparr>offer_id = ''A1'', stock = 0\<rparr>],
         UpdatePrice [\<lparr>auto_action_enabled = ''UNKNOWN'', currency_code = ''RUB'',
                        price_offer_id = ''A1'', old_price = ''0'', price = ''10''\<rparr>]],
        None)"
    by (simp add: seller_main_def s p push_chunks_def divide_lst_def py_range_def range_up.simps
        py_slice_def slice_index_def accepts_all_def)
  from s m show ?thesis by (intro conjI)
qed


lemma stock_push_within:
  assumes "0 < n" "nat n \<le> sc" "c \<in> set (fst (push_chunks update UpdateStocks updates n))"
  shows "within_caps sc pc c"
  using push_chunks_sent [OF assms(1,3)] assms(2) by (auto simp: within_caps_def)

lemma price_push_within:
  assumes "0 < n" "nat n \<le> pc" "c \<in> set (fst (push_chunks update UpdatePrice updates n))"
  shows "within_caps sc pc c"
  using push_chunks_sent [OF assms(1,3)] assms(2) by (auto simp: within_caps_def)

lemma stock_sent_within:
  "push_chunks update UpdateStocks updates n = (sent, r) \<Longrightarrow> c \<in> set sent \<Longrightarrow>
     0 < n \<Longrightarrow> nat n \<le> sc \<Longrightarrow> within_caps sc pc c"
  using stock_push_within [of n sc c update updates pc] by simp

lemma price_sent_within:
  "push_chunks update UpdatePrice updates n = (sent, r) \<Longrightarrow> c \<in> set sent \<Longrightarrow>
     0 < n \<Longrightarrow> nat n \<le> pc \<Longrightarrow> within_caps sc pc c"
  using price_push_within [of n pc c update updates sc] by simp

lemma seller_main_caps:
  assumes "c \<in> set (fst (seller_main get_offer_ids download_stock update_stocks update_price))"
  shows "within_caps 100 900 c"
  using assms
  by (auto simp: seller_main_def split: sum.splits prod.splits option.splits
      elim: stock_sent_within price_sent_within)

lemma seller_upload_stocks_caps:
  assumes "c \<in> set (fst (seller_upload_stocks watch_remnants get_offer_ids update_stocks))"
  shows "within_caps 100 0 c"
  using assms
  by (auto simp: seller_upload_stocks_def split: sum.splits prod.splits option.splits
      elim: stock_sent_within)

lemma seller_upload_prices_caps:
  assumes "c \<in> set (fst (seller_upload_prices watch_remnants get_offer_ids update_price))"
  shows "within_caps 0 1000 c"
  using assms
  by (auto simp: seller_upload_prices_def split: sum.splits prod.splits option.splits
      elim: price_sent_within)

lemma market_upload_stocks_caps:
  assumes "c \<in> set (fst (market_upload_stocks date watch_remnants get_offer_ids update_stocks wh))"
  shows "within_caps 2000 0 c"
  using assms
  by (auto simp: market_upload_stocks_def split: sum.splits prod.splits option.splits
      elim: stock_sent_within)

lemma market_upload_prices_caps:
  assumes "c \<in> set (fst (market_upload_prices watch_remnants get_offer_ids update_price))"
  shows "within_caps 0 500 c"
  using assms
  by (auto simp: market_upload_prices_def split: sum.splits prod.splits option.splits
      elim: price_sent_within)

lemma market_target_caps:
  assumes "c \<in> set (fst (market_target date watch_remnants get_offer_ids update_stocks wh))"
  shows "within_caps 2000 0 c"
proof -
  have "within_caps 2000 0 c" if "c \<in> set (fst (push_chunks update_stocks UpdateStocks stocks 2000))"
    for stocks
    using stock_push_within [of 2000 2000 c update_stocks stocks 0] that by simp
  then show ?thesis
    using assms by (auto simp: market_target_def split: sum.splits prod.splits option.splits)
qed

lemma market_main_caps:
  assumes "c \<in> set (fst (market_main watch_remnants d1 ids1 u1 w1 d2 ids2 u2 w2))"
  shows "within_caps 2000 0 c"
proof -
  from assms have "c \<in> set (fst (market_target d1 watch_remnants ids1 u1 w1))
      \<or> c \<in> set (fst (market_target d2 watch_remnants ids2 u2 w2))"
    by (auto simp: market_main_def split: prod.splits option.splits)
  then show ?thesis
    using market_target_caps by blast
qed

text \<open>
  C7. Every request a push loop sends carries a non-empty chunk of at most the fixed cap
  of its call site: in seller.py, 100 stock records (\<open>main\<close>, \<open>upload_stocks\<close>) and 900
  (\<open>main\<close>) or 1000 (\<open>upload_prices\<close>) price records; in market.py, 2000 stock records
  (\<open>main\<close>, \<open>upload_stocks\<close>) and 500 price records (\<open>upload_prices\<close>). A cap of 0 below
  says that the function sends no request of that kind.
\<close>

theorem push_chunk_caps:
  "(\<forall>c \<in> set (fst (seller_main get_offer_ids download_stock update_stocks update_price)).
      within_caps 100 900 c)
   \<and> (\<forall>c \<in> set (fst (seller_upload_stocks watch_remnants get_offer_ids update_stocks)).
      within_caps 100 0 c)
   \<and> (\<forall>c \<in> set (fst (seller_upload_prices watch_remnants get_offer_ids update_price)).
      within_caps 0 1000 c)
   \<and> (\<forall>c \<in> set (fst (market_upload_stocks date watch_remnants get_offer_ids m_update_stocks wh)).
      within_caps 2000 0 c)
   \<and> (\<forall>c \<in> set (fst (market_upload_prices watch_remnants get_offer_ids m_update_price)).
      within_caps 0 500 c)
   \<and> (\<forall>c \<in> set (fst (market_main watch_remnants d1 ids1 u1 w1 d2 ids2 u2 w2)).
      within_caps 2000 0 c)"
  using seller_main_caps seller_upload_stocks_caps seller_upload_prices_caps
    market_upload_stocks_caps market_upload_prices_caps market_main_caps
  by (intro conjI ballI) blast+

theorem push_chunk_caps_witness:
  "fst (seller_main (Inr catalog_example) (Inr feed_example) (\<lambda>_. None) (\<lambda>_. None))
     = [UpdateStocks [\<lparr>offer_id = ''A1'', stock = 100\<rparr>, \<lparr>offer_id = ''A2'', stock = 0\<rparr>,
                      \<lparr>offer_id = ''A3'', stock = 0\<rparr>]]
   \<and> within_caps 100 900
        (UpdateStocks [\<lparr>offer_id = ''A1'', stock = 100\<rparr>, \<lparr>offer_id = ''A2'', stock = 0\<rparr>,
                       \<lparr>offer_id = ''A3'', stock = 0\<rparr>] :: (seller_stock, seller_price) call)"
proof -
  let ?c = "UpdateStocks [\<lparr>offer_id = ''A1'', stock = 100\<rparr>, \<lparr>offer_id = ''A2'', stock = 0\<rparr>,
                       \<lparr>offer_id = ''A3'', stock = 0\<rparr>] :: (seller_stock, seller_price) call"
  have ev: "fst (seller_main (Inr catalog_example) (Inr feed_example) (\<lambda>_. None) (\<lambda>_. None)) = [?c]"
    by (simp add: seller_main_def seller_create_stocks_def seller_create_prices_def
        feed_example_def catalog_example_def normalize_count_def push_chunks_def divide_lst_def
        py_range_def range_up.simps py_slice_def slice_index_def)
  then have m: "?c \<in> set (fst (seller_main (Inr catalog_example) (Inr feed_example) (\<lambda>_. None) (\<lambda>_. None)))"
    by simp
  note w = push_chunk_caps [where get_offer_ids = "Inr catalog_example" and download_stock = "Inr feed_example"
      and update_stocks = "\<lambda>_. None" and update_price = "\<lambda>_. None", THEN conjunct1, THEN bspec, OF m]
  from ev w show ?thesis by (intro conjI)
qed


section \<open>Catalog pagination\<close>

lemma seller_fetch_exit:
  "seller_fetch_loop fuel get_product_list s last_id acc = Some (Inr pl) \<Longrightarrow>
     \<exists>t s0 p s1. get_product_list t s0 = (Inr p, s1) \<and> result_total p = int (length pl)
        \<and> (\<exists>pre. pl = pre @ result_items p)"
proof (induction fuel arbitrary: s last_id acc)
  case 0
  then show ?case by simp
next
  case (Suc fuel)
  obtain r s' where g: "get_product_list last_id s = (r, s')"
    by (cases "get_product_list last_id s") auto
  show ?case
  proof (cases r)
    case (Inl e)
    with Suc.prems g show ?thesis by simp
  next
    case (Inr p)
    show ?thesis
    proof (cases "result_total p = int (length (acc @ result_items p))")
      case True
      with Suc.prems g Inr have "pl = acc @ result_items p" by (simp add: Let_def)
      with True g Inr show ?thesis by blast
    next
      case False
      with Suc.prems g Inr have
        "seller_fetch_loop fuel get_product_list s' (result_last_id p) (acc @ result_items p) = Some (Inr pl)"
        by (simp add: Let_def)
      then show ?thesis by (rule Suc.IH)
    qed
  qed
qed

lemma market_fetch_exit:
  "market_fetch_loop fuel get_product_list s page acc = Some (Inr pl) \<Longrightarrow>
     \<exists>t s0 p s1. get_product_list t s0 = (Inr p, s1) \<and> falsy (nextPageToken p)
        \<and> (\<exists>pre. pl = pre @ offerMappingEntries p)"
proof (induction fuel arbitrary: s page acc)
  case 0
  then show ?case by simp
next
  case (Suc fuel)
  obtain r s' where g: "get_product_list page s = (r, s')"
    by (cases "get_product_list page s") auto
  show ?case
  proof (cases r)
    case (Inl e)
    with Suc.prems g show ?thesis by simp
  next
    case (Inr p)
    show ?thesis
    proof (cases "falsy (nextPageToken p)")
      case True
      with Suc.prems g Inr have "pl = acc @ offerMappingEntries p" by (simp add: Let_def)
      with True g Inr show ?thesis by blast
    next
      case False
      with Suc.prems g Inr have
        "market_fetch_loop fuel get_product_list s' (nextPageToken p) (acc @ offerMappingEntries p) = Some (Inr pl)"
        by (simp add: Let_def)
      then show ?thesis by (rule Suc.IH)
    qed
  qed
qed

text \<open>
  C5 (amended). Both catalog fetchers start with the empty continuation token and an
  empty accumulator and append each page's entries. The loop of seller.py returns as soon
  as the total reported by the page equals the number of accumulated entries, whatever its
  \<open>last_id\<close>, and otherwise goes on with that \<open>last_id\<close>; when it returns, the last page read
  reported the length of the result as total. The loop of market.py returns as soon as a
  page carries no next-page token (absent or empty), and otherwise goes on with the token;
  when it returns, the last page read carried none.
\<close>

theorem catalog_pagination:
  "seller_get_offer_ids fuel sgpl s
     = map_option (map_sum id (map item_offer_id)) (seller_fetch_loop fuel sgpl s [] [])
   \<and> (sgpl last_id s = (Inr p, s') \<and> result_total p = int (length (acc @ result_items p)) \<longrightarrow>
        seller_fetch_loop (Suc fuel) sgpl s last_id acc = Some (Inr (acc @ result_items p)))
   \<and> (sgpl last_id s = (Inr p, s') \<and> result_total p \<noteq> int (length (acc @ result_items p)) \<longrightarrow>
        seller_fetch_loop (Suc fuel) sgpl s last_id acc
          = seller_fetch_loop fuel sgpl s' (result_last_id p) (acc @ result_items p))
   \<and> (seller_fetch_loop fuel sgpl s last_id acc = Some (Inr pl) \<longrightarrow>
        (\<exists>t s0 p0 s1. sgpl t s0 = (Inr p0, s1) \<and> result_total p0 = int (length pl)
           \<and> (\<exists>pre. pl = pre @ result_items p0)))
   \<and> market_get_offer_ids fuel mgpl u
     = map_option (map_sum id (map shopSku)) (market_fetch_loop fuel mgpl u (Some []) [])
   \<and> (mgpl page u = (Inr q, u') \<and> falsy (nextPageToken q) \<longrightarrow>
        market_fetch_loop (Suc fuel) mgpl u page macc = Some (Inr (macc @ offerMappingEntries q)))
   \<and> (mgpl page u = (Inr q, u') \<and> \<not> falsy (nextPageToken q) \<longrightarrow>
        market_fetch_loop (Suc fuel) mgpl u page macc
          = market_fetch_loop fuel mgpl u' (nextPageToken q) (macc @ offerMappingEntries q))
   \<and> (market_fetch_loop fuel mgpl u page macc = Some (Inr ml) \<longrightarrow>
        (\<exists>t u0 q0 u1. mgpl t u0 = (Inr q0, u1) \<and> falsy (nextPageToken q0)
           \<and> (\<exists>pre. ml = pre @ offerMappingEntries q0)))"
proof -
  have a: "seller_get_offer_ids fuel sgpl s
     = map_option (map_sum id (map item_offer_id)) (seller_fetch_loop fuel sgpl s [] [])"
    by (simp add: seller_get_offer_ids_def split: option.splits sum.splits)
  have b: "market_get_offer_ids fuel mgpl u
     = map_option (map_sum id (map shopSku)) (market_fetch_loop fuel mgpl u (Some []) [])"
    by (simp add: market_get_offer_ids_def split: option.splits sum.splits)
  have c: "sgpl last_id s = (Inr p, s') \<and> result_total p = int (length (acc @ result_items p)) \<longrightarrow>
        seller_fetch_loop (Suc fuel) sgpl s last_id acc = Some (Inr (acc @ result_items p))"
    by (simp add: Let_def)
  have d: "sgpl last_id s = (Inr p, s') \<and> result_total p \<noteq> int (length (acc @ result_items p)) \<longrightarrow>
        seller_fetch_loop (Suc fuel) sgpl s last_id acc
          = seller_fetch_loop fuel sgpl s' (result_last_id p) (acc @ result_items p)"
    by (simp add: Let_def)
  have e: "mgpl page u = (Inr q, u') \<and> falsy (nextPageToken q) \<longrightarrow>
        market_fetch_loop (Suc fuel) mgpl u page macc = Some (Inr (macc @ offerMappingEntries q))"
    by (simp add: Let_def)
  have f: "mgpl page u = (Inr q, u') \<and> \<not> falsy (nextPageToken q) \<longrightarrow>
        market_fetch_loop (Suc fuel) mgpl u page macc
          = market_fetch_loop fuel mgpl u' (nextPageToken q) (macc @ offerMappingEntries q)"
    by (simp add: Let_def)
  have g: "seller_fetch_loop fuel sgpl s last_id acc = Some (Inr pl) \<longrightarrow>
        (\<exists>t s0 p0 s1. sgpl t s0 = (Inr p0, s1) \<and> result_total p0 = int (length pl)
           \<and> (\<exists>pre. pl = pre @ result_items p0))"
    using seller_fetch_exit [of fuel sgpl s last_id acc pl] by blast
  have h: "market_fetch_loop fuel mgpl u page macc = Some (Inr ml) \<longrightarrow>
        (\<exists>t u0 q0 u1. mgpl t u0 = (Inr q0, u1) \<and> falsy (nextPageToken q0)
           \<and> (\<exists>pre. ml = pre @ offerMappingEntries q0))"
    using market_fetch_exit [of fuel mgpl u page macc ml] by blast
  from a c d g b e f h show ?thesis by (intro conjI)
qed

theorem catalog_pagination_witness:
  "seller_server_example [] () =
     (Inr \<lparr>result_items = [product_example], result_total = 2, result_last_id = []\<rparr>, ())
   \<and> seller_fetch_loop (Suc (Suc 0)) seller_server_example () [] []
     = seller_fetch_loop (Suc 0) seller_server_example () [] [product_example]
   \<and> seller_fetch_loop (Suc 0) seller_server_example () [] [product_example]
     = Some (Inr [product_example, product_example])"
proof -
  let ?p = "\<lparr>result_items = [product_example], result_total = 2, result_last_id = []\<rparr>"
  have r: "seller_server_example [] () = (Inr ?p, ())"
    by (simp add: seller_server_example_def)
  have h1: "seller_server_example [] () = (Inr ?p, ()) \<and> result_total ?p \<noteq> int (length ([] @ result_items ?p))"
    using r by simp
  have h2: "seller_server_example [] () = (Inr ?p, ())
      \<and> result_total ?p = int (length ([product_example] @ result_items ?p))"
    using r by simp
  note go = catalog_pagination [where sgpl = seller_server_example and s = "()" and last_id = "[]"
      and p = ?p and s' = "()" and acc = "[]" and fuel = "Suc 0",
      THEN conjunct2, THEN conjunct2, THEN conjunct1, THEN mp, OF h1]
  note stop = catalog_pagination [where sgpl = seller_server_example and s = "()" and last_id = "[]"
      and p = ?p and s' = "()" and acc = "[product_example]" and fuel = 0,
      THEN conjunct2, THEN conjunct1, THEN mp, OF h2]
  from r go stop show ?thesis by simp
qed

text \<open>
  The claim as written attaches the two exit conditions to the wrong files. In seller.py
  a page without continuation token does not end the loop: against a server whose every
  page has an empty \<open>last_id\<close>, one entry and the total 2, the fetch has not returned after
  one request and returns two entries after the second. In market.py the first page
  without a next-page token ends the loop, no count being compared.
\<close>

theorem pagination_exit_counterexample:
  "seller_get_offer_ids (Suc 0) seller_server_example () = None
   \<and> seller_get_offer_ids (Suc (Suc 0)) seller_server_example () = Some (Inr [''x'', ''x''])
   \<and> market_get_offer_ids (Suc 0) market_server_example () = Some (Inr [''x''])"
  by (simp add: seller_get_offer_ids_def market_get_offer_ids_def seller_server_example_def
      market_server_example_def product_example_def falsy_def Let_def)


section \<open>Repeated reconciliation\<close>

lemma restamp_to_market: "restamp d2 (to_market d1 wh s) = to_market d2 wh s"
  by (simp add: restamp_def to_market_def market_stock_entry_def)

lemma market_stocks_restamp:
  "map_sum id (map_prod (map (restamp d2)) id) (market_create_stocks d1 feed ids wh)
     = market_create_stocks d2 feed ids wh"
proof (cases "seller_create_stocks feed ids")
  case (Inl e)
  then show ?thesis by (simp add: market_create_stocks_eq)
next
  case (Inr r)
  obtain out rest where r: "r = (out, rest)" by (cases r) auto
  show ?thesis
    by (simp add: market_create_stocks_eq Inr r restamp_to_market comp_def)
qed

lemma subseq_remove1: "subseq (remove1 c xs) xs"
  by (induction xs) auto

lemma subseq_fold_remove1: "subseq (fold remove1 cs xs) xs"
proof (induction cs arbitrary: xs)
  case Nil
  then show ?case by simp
next
  case (Cons c cs)
  have "subseq (fold remove1 cs (remove1 c xs)) (remove1 c xs)" by (rule Cons.IH)
  then show ?case using subseq_remove1 [of c xs] by (simp add: subseq_order.trans)
qed

lemma seller_stocks_closed:
  assumes "seller_create_stocks feed catalog = Inr (out, rest)"
  shows "map Inr out = map stock_record (matched_rows [] catalog feed)
           @ map (\<lambda>i. Inr \<lparr>offer_id = i, stock = 0\<rparr>) rest
     \<and> rest = fold remove1 (codes (matched_rows [] catalog feed)) catalog
     \<and> subseq rest catalog"
proof -
  from create_stocks_rows [OF assms] obtain matched where
    out: "out = matched @ map (\<lambda>i. \<lparr>offer_id = i, stock = 0\<rparr>) rest"
    and rows: "map Inr matched = map stock_record (matched_rows [] catalog feed)"
    and rest: "rest = fold remove1 (codes (matched_rows [] catalog feed)) catalog" by blast
  have "(map Inr out :: (error + seller_stock) list)
      = map Inr matched @ map (\<lambda>i. Inr \<lparr>offer_id = i, stock = 0\<rparr>) rest"
    by (simp add: out comp_def)
  moreover have "subseq rest catalog"
    unfolding rest by (rule subseq_fold_remove1)
  ultimately show ?thesis using rows rest by simp
qed

lemma market_stocks_closed:
  assumes "market_create_stocks date feed catalog wh = Inr (mout, mrest)"
  shows "map Inr mout = map (market_stock_record date wh) (matched_rows [] catalog feed)
           @ map (\<lambda>i. Inr (market_stock_entry date wh i 0)) mrest
     \<and> mrest = fold remove1 (codes (matched_rows [] catalog feed)) catalog
     \<and> subseq mrest catalog"
proof -
  from market_stocks_from_seller [OF assms] obtain sout where
    r: "seller_create_stocks feed catalog = Inr (sout, mrest)"
    and mout: "mout = map (to_market date wh) sout" by blast
  from create_stocks_rows [OF r] obtain matched where
    out: "sout = matched @ map (\<lambda>i. \<lparr>offer_id = i, stock = 0\<rparr>) mrest"
    and rows: "map Inr matched = map stock_record (matched_rows [] catalog feed)"
    and rest: "mrest = fold remove1 (codes (matched_rows [] catalog feed)) catalog" by blast
  have "(map Inr mout :: (error + market_stock) list)
      = map Inr (map (to_market date wh) matched)
        @ map (\<lambda>i. Inr (market_stock_entry date wh i 0)) mrest"
    by (simp add: mout out to_market_def comp_def)
  also have "map Inr (map (to_market date wh) matched)
      = map (market_stock_record date wh) (matched_rows [] catalog feed)"
    by (rule market_rows_of_seller [OF rows])
  finally have a: "map Inr mout = map (market_stock_record date wh) (matched_rows [] catalog feed)
        @ map (\<lambda>i. Inr (market_stock_entry date wh i 0)) mrest" .
  have "subseq mrest catalog"
    unfolding rest by (rule subseq_fold_remove1)
  with a rest show ?thesis by blast
qed

text \<open>
  C8 (amended). The outputs of a reconciliation are fixed by the feed and the catalog
  snapshot alone, so two runs on the same feed, each on a fresh copy of the same snapshot,
  give the same outputs, in the same order, in seller.py, and the same price output in
  market.py: the stock output is the records of the matched rows in feed order, each with
  the code and the normalized quantity of its row, followed by the zero records of the
  offer ids that are left, in catalog order, and the price output is the price records of
  the rows whose code is in the catalog, in feed order. The stock output of market.py
  carries in addition the clock reading of the run in every record (\<open>updatedAt\<close>): two
  runs agree when they read the same time, and otherwise agree in everything but that
  field, the output of the second run being that of the first with its timestamps
  replaced.
\<close>

theorem reconcile_repeatable:
  "map_sum id (map_prod (map (restamp db)) id) (market_create_stocks da feed catalog wh)
       = market_create_stocks db feed catalog wh
   \<and> (seller_create_stocks feed catalog = Inr (out, rest) \<longrightarrow>
        map Inr out = map stock_record (matched_rows [] catalog feed)
                        @ map (\<lambda>i. Inr \<lparr>offer_id = i, stock = 0\<rparr>) rest
        \<and> rest = fold remove1 (codes (matched_rows [] catalog feed)) catalog
        \<and> subseq rest catalog)
   \<and> (seller_create_prices feed catalog = Inr prices \<longrightarrow>
        map Inr prices = map price_record (filter (\<lambda>w. py_str (kod w) \<in> set catalog) feed))
   \<and> (market_create_stocks da feed catalog wh = Inr (mout, mrest) \<longrightarrow>
        map Inr mout = map (market_stock_record da wh) (matched_rows [] catalog feed)
                         @ map (\<lambda>i. Inr (market_stock_entry da wh i 0)) mrest
        \<and> mrest = fold remove1 (codes (matched_rows [] catalog feed)) catalog
        \<and> subseq mrest catalog)
   \<and> (market_create_prices feed catalog = Inr mprices \<longrightarrow>
        map Inr mprices
          = map market_price_record (filter (\<lambda>w. py_str (kod w) \<in> set catalog) feed))"
  using market_stocks_restamp [of db da feed catalog wh]
    seller_stocks_closed [of feed catalog out rest]
    seller_prices_closed [of feed catalog prices]
    market_stocks_closed [of da feed catalog wh mout mrest]
    market_prices_closed [of feed catalog mprices]
  by (intro conjI impI) blast+

theorem reconcile_repeatable_witness:
  "seller_create_stocks feed_example catalog_example
     = Inr ([\<lparr>offer_id = ''A1'', stock = 100\<rparr>, \<lparr>offer_id = ''A2'', stock = 0\<rparr>,
             \<lparr>offer_id = ''A3'', stock = 0\<rparr>], [''A3''])
   \<and> map Inr [\<lparr>offer_id = ''A1'', stock = 100\<rparr>, \<lparr>offer_id = ''A2'', stock = 0\<rparr>,
             \<lparr>offer_id = ''A3'', stock = 0\<rparr>]
       = map stock_record (matched_rows [] catalog_example feed_example)
           @ map (\<lambda>i. Inr \<lparr>offer_id = i, stock = 0\<rparr>) [''A3'']
   \<and> matched_rows [] catalog_example feed_example = feed_example"
proof -
  let ?out = "[\<lparr>offer_id = ''A1'', stock = 100\<rparr>, \<lparr>offer_id = ''A2'', stock = 0\<rparr>,
             \<lparr>offer_id = ''A3'', stock = 0\<rparr>]"
  have ev: "seller_create_stocks feed_example catalog_example = Inr (?out, [''A3''])"
    by (simp add: seller_create_stocks_def feed_example_def catalog_example_def normalize_count_def)
  have rows: "matched_rows [] catalog_example feed_example = feed_example"
    by (simp add: feed_example_def catalog_example_def)
  note inst = reconcile_repeatable [where feed = feed_example and catalog = catalog_example
      and out = ?out and rest = "[''A3'']" and da = "[]" and db = "[]" and wh = "[]"
      and mout = "[]" and mrest = "[]" and prices = "[]" and mprices = "[]"]
  note closed = inst [THEN conjunct2, THEN conjunct1, THEN mp, OF ev, THEN conjunct1]
  from ev closed rows show ?thesis by (intro conjI)
qed

text \<open>
  The claim as written fails for market.py: the same feed and catalog reconciled at two
  different clock readings give different stock outputs.
\<close>

theorem market_timestamp_counterexample:
  "market_create_stocks ''2024-01-01T00:00:00Z'' feed_example catalog_example ''1''
     \<noteq> market_create_stocks ''2024-01-01T00:00:01Z'' feed_example catalog_example ''1''"
  by (simp add: market_create_stocks_def market_stock_entry_def feed_example_def
      catalog_example_def normalize_count_def)

end
